theory Spec2Isabelle
  imports Main "HOL-Library.Sublist"
begin

section \<open>Python values shared by the modules\<close>

text \<open>
  Strings are \<open>string\<close>: a character is a code point below 256, so the embedding
  covers Latin-1 text. Python integers are \<open>int\<close>. A raised exception is the
  \<open>Inl\<close> branch of a sum, carrying the exception class and its message.
\<close>

datatype py_error = ValueError string | RuntimeError string | AttributeError string | OtherError string

text \<open>
  \<open>range(0, n, step)\<close> for \<open>n = len(text)\<close>: a zero step raises \<open>ValueError\<close>,
  a negative step gives the empty range, a positive step gives the
  \<open>ceil(n / step)\<close> multiples of \<open>step\<close> below \<open>n\<close>.
\<close>

definition range_from0 :: "nat \<Rightarrow> int \<Rightarrow> py_error + nat list" where
  "range_from0 n step =
     (if step = 0 then Inl (ValueError ''range() arg 3 must not be zero'')
      else if step < 0 then Inr []
      else Inr (map (\<lambda>k. k * nat step) [0..<(n + nat step - 1) div nat step]))"

text \<open>
  A slice bound of Python: a negative bound counts from the end, and every bound is
  clipped to \<open>0 .. len\<close>. \<open>xs[i:j]\<close> never raises.
\<close>

definition clip_index :: "nat \<Rightarrow> int \<Rightarrow> nat" where
  "clip_index n i = (if i < 0 then nat (max 0 (int n + i)) else min n (nat i))"

definition py_slice :: "'a list \<Rightarrow> int \<Rightarrow> int \<Rightarrow> 'a list" where
  "py_slice xs i j =
     (let a = clip_index (length xs) i; b = clip_index (length xs) j
      in take (b - a) (drop a xs))"

section \<open>knowledge\_graph.py: the chunker\<close>

text \<open>
  \<^verbatim>\<open>
  def _chunk_text(text, chunk_size=6000, overlap=300):
      if len(text) <= chunk_size:
          return [text]
      return [text[i:i + chunk_size] for i in range(0, len(text), chunk_size - overlap)]
  \<close>
\<close>

definition chunk_text :: "string \<Rightarrow> int \<Rightarrow> int \<Rightarrow> py_error + string list" where
  "chunk_text text chunk_size overlap =
     (if int (length text) \<le> chunk_size then Inr [text]
      else (case range_from0 (length text) (chunk_size - overlap) of
              Inl e \<Rightarrow> Inl e
            | Inr starts \<Rightarrow>
                Inr (map (\<lambda>i. py_slice text (int i) (int i + chunk_size)) starts)))"

text \<open>
  The reading of "concatenation with overlap removed": the first chunk whole, every
  later chunk without its first \<open>overlap\<close> characters (\<open>c[overlap:]\<close>).
\<close>

definition reassemble :: "nat \<Rightarrow> string list \<Rightarrow> string" where
  "reassemble overlap cs =
     (case cs of [] \<Rightarrow> [] | c # rest \<Rightarrow> c @ concat (map (drop overlap) rest))"

text \<open>Integer ceiling of a quotient with a positive divisor.\<close>

definition ceil_div :: "int \<Rightarrow> int \<Rightarrow> int" where
  "ceil_div a b = - ((- a) div b)"

text \<open>The chunk count as the specification words it.\<close>

definition spec_chunk_count :: "nat \<Rightarrow> int \<Rightarrow> int \<Rightarrow> int" where
  "spec_chunk_count n chunk_size overlap = ceil_div (int n - overlap) (chunk_size - overlap)"

text \<open>The chunk count of the code: one chunk per element of the range.\<close>

definition code_chunk_count :: "nat \<Rightarrow> int \<Rightarrow> int \<Rightarrow> int" where
  "code_chunk_count n chunk_size overlap = ceil_div (int n) (chunk_size - overlap)"

section \<open>models.py: the graph data model\<close>

text \<open>
  \<^verbatim>\<open>
  class Node(BaseModel):          id: str; type: str
  class Relationship(BaseModel):  source: str; target: str; type: str
  class KnowledgeGraphResponse(BaseModel):
      nodes: List[Node]; relationships: List[Relationship]
  \<close>
\<close>

record node =
  node_id :: string
  node_type :: string

record relationship =
  rel_source :: string
  rel_target :: string
  rel_type :: string

record knowledge_graph_response =
  nodes :: "node list"
  relationships :: "relationship list"

section \<open>knowledge\_graph.py: merging the chunk graphs\<close>

text \<open>
  The three accumulators of \<open>_merge_graphs\<close>. \<open>merged_nodes\<close> is a Python dict: an
  association list in insertion order, with a key inserted only when it is absent.
  \<^verbatim>\<open>
  merged_nodes: Dict[str, Node] = {}
  edge_set = set()
  merged_rels: List[Relationship] = []
  for graph in graphs:
      for node in graph.nodes:
          if node.id not in merged_nodes:
              merged_nodes[node.id] = node
      for rel in graph.relationships:
          edge_tuple = (rel.source, rel.target, rel.type)
          if edge_tuple not in edge_set:
              edge_set.add(edge_tuple)
              merged_rels.append(rel)
  return KnowledgeGraphResponse(nodes=list(merged_nodes.values()), relationships=merged_rels)
  \<close>
\<close>

record merge_state =
  merged_nodes :: "(string \<times> node) list"
  edge_set :: "(string \<times> string \<times> string) set"
  merged_rels :: "relationship list"

definition edge_tuple :: "relationship \<Rightarrow> string \<times> string \<times> string" where
  "edge_tuple rel = (rel_source rel, rel_target rel, rel_type rel)"

definition merge_node :: "node \<Rightarrow> merge_state \<Rightarrow> merge_state" where
  "merge_node n st =
     (if map_of (merged_nodes st) (node_id n) = None
      then st\<lparr>merged_nodes := merged_nodes st @ [(node_id n, n)]\<rparr>
      else st)"

definition merge_rel :: "relationship \<Rightarrow> merge_state \<Rightarrow> merge_state" where
  "merge_rel rel st =
     (if edge_tuple rel \<notin> edge_set st
      then st\<lparr>edge_set := insert (edge_tuple rel) (edge_set st),
              merged_rels := merged_rels st @ [rel]\<rparr>
      else st)"

definition merge_graph :: "knowledge_graph_response \<Rightarrow> merge_state \<Rightarrow> merge_state" where
  "merge_graph graph st = fold merge_rel (relationships graph) (fold merge_node (nodes graph) st)"

definition merge_graphs :: "knowledge_graph_response list \<Rightarrow> knowledge_graph_response" where
  "merge_graphs graphs =
     (let st = fold merge_graph graphs \<lparr>merged_nodes = [], edge_set = {}, merged_rels = []\<rparr>
      in \<lparr>nodes = map snd (merged_nodes st), relationships = merged_rels st\<rparr>)"

text \<open>
  What \<open>asyncio.gather(*tasks, return_exceptions=True)\<close> returns for one chunk: the
  graph the extraction returned, the exception it raised (an instance of
  \<open>Exception\<close>, with its text \<open>str(res)\<close>), or the \<open>CancelledError\<close> of a cancelled
  extraction, which is a \<open>BaseException\<close> and not an \<open>Exception\<close>.
\<close>

datatype chunk_result =
    Graph knowledge_graph_response
  | Raised string
  | Cancelled string

text \<open>\<open>isinstance(res, KnowledgeGraphResponse)\<close> and \<open>isinstance(res, Exception)\<close>\<close>

fun is_graph :: "chunk_result \<Rightarrow> bool" where
  "is_graph (Graph g) = True"
| "is_graph _ = False"

fun is_exception :: "chunk_result \<Rightarrow> bool" where
  "is_exception (Raised e) = True"
| "is_exception _ = False"

text \<open>
  \<open>process_text_in_chunks\<close> after the gather. What the function prints is returned
  beside its result.
  \<^verbatim>\<open>
  successful_graphs = [res for res in results if isinstance(res, KnowledgeGraphResponse)]
  if not successful_graphs:
      errors = [str(res) for res in results if isinstance(res, Exception)]
      print(f"--- All chunks failed to process. Errors: {errors} ---")
      raise RuntimeError("Failed to generate a knowledge graph from any part of the document.")
  return _merge_graphs(successful_graphs)
  \<close>
\<close>

datatype printed = AllChunksFailed "string list"

definition no_graph_message :: string where
  "no_graph_message = ''Failed to generate a knowledge graph from any part of the document.''"

definition merge_results ::
  "chunk_result list \<Rightarrow> printed list \<times> (py_error + knowledge_graph_response)" where
  "merge_results results =
     (let successful_graphs = [g. Graph g \<leftarrow> results]
      in if successful_graphs = []
         then (let errors = [e. Raised e \<leftarrow> results]
               in ([AllChunksFailed errors], Inl (RuntimeError no_graph_message)))
         else ([], Inr (merge_graphs successful_graphs)))"

text \<open>
  The whole function, with the outcome of the extraction of each chunk (one
  language-model call per chunk) as a parameter: \<open>chunks = _chunk_text(text)\<close> uses
  the defaults 6000 and 300.
\<close>

definition process_text_in_chunks ::
  "(string \<Rightarrow> chunk_result) \<Rightarrow> string \<Rightarrow>
     printed list \<times> (py_error + knowledge_graph_response)" where
  "process_text_in_chunks generate_graph_from_text_custom text =
     (case chunk_text text 6000 300 of
        Inl e \<Rightarrow> ([], Inl e)
      | Inr chunks \<Rightarrow> merge_results (map generate_graph_from_text_custom chunks))"

text \<open>A chunk graph that declares the id \<open>a\<close> twice and has one edge to an undeclared id.\<close>

definition example_chunk_graph :: knowledge_graph_response where
  "example_chunk_graph =
     \<lparr>nodes = [\<lparr>node_id = ''a'', node_type = ''x''\<rparr>, \<lparr>node_id = ''a'', node_type = ''y''\<rparr>],
      relationships = [\<lparr>rel_source = ''a'', rel_target = ''b'', rel_type = ''R''\<rparr>]\<rparr>"

text \<open>
  A graph is absorbed by a merge state when all its node ids are keys of the state and
  all its edge triples are in the state's edge set.
\<close>

definition absorbed :: "knowledge_graph_response \<Rightarrow> merge_state \<Rightarrow> bool" where
  "absorbed g st \<longleftrightarrow>
     node_id ` set (nodes g) \<subseteq> fst ` set (merged_nodes st) \<and>
     edge_tuple ` set (relationships g) \<subseteq> edge_set st"

section \<open>Strings of Python\<close>

text \<open>\<open>needle in haystack\<close> on strings: the needle occurs as a contiguous substring.\<close>

fun str_contains :: "string \<Rightarrow> string \<Rightarrow> bool" where
  "str_contains needle [] = (needle = [])"
| "str_contains needle (c # cs) = (prefix needle (c # cs) \<or> str_contains needle cs)"

text \<open>
  \<open>str.lower()\<close> on one character, read as a code point below 256: the letters A
  to Z and the capital letters of Latin-1 (0xC0 to 0xDE without the multiplication
  sign 0xD7) move up by 32, every other character is kept.
\<close>

definition lower_char :: "char \<Rightarrow> char" where
  "lower_char c =
     (let n = (of_char c :: nat)
      in if (65 \<le> n \<and> n \<le> 90) \<or> (192 \<le> n \<and> n \<le> 222 \<and> n \<noteq> 215)
         then char_of (n + 32) else c)"

definition str_lower :: "string \<Rightarrow> string" where
  "str_lower s = map lower_char s"

section \<open>knowledge\_graph.py: path discovery\<close>

text \<open>
  The keys of a dict comprehension over a list: every key once, in the order of its
  first occurrence.
\<close>

definition dict_keys :: "string list \<Rightarrow> string list" where
  "dict_keys ks = fold (\<lambda>k seen. if k \<in> set seen then seen else seen @ [k]) ks []"

text \<open>
  \<^verbatim>\<open>
  def _build_adjacency(graph):
      adj = {node.id: [] for node in graph.nodes}
      for r in graph.relationships:
          if r.source in adj: adj[r.source].append(r.target)
          if r.target in adj: adj[r.target].append(r.source)
      return adj
  \<close>
  The dict is an association list with distinct keys in insertion order.
  \<open>append_at k v adj\<close> is \<open>if k in adj: adj[k].append(v)\<close>.
\<close>

type_synonym adjacency = "(string \<times> string list) list"

fun append_at :: "string \<Rightarrow> string \<Rightarrow> adjacency \<Rightarrow> adjacency" where
  "append_at k v [] = []"
| "append_at k v ((k', vs) # rest) =
     (if k' = k then (k', vs @ [v]) # rest else (k', vs) # append_at k v rest)"

definition build_adjacency :: "knowledge_graph_response \<Rightarrow> adjacency" where
  "build_adjacency graph =
     fold (\<lambda>r adj. append_at (rel_target r) (rel_source r)
                     (append_at (rel_source r) (rel_target r) adj))
       (relationships graph)
       (map (\<lambda>k. (k, [])) (dict_keys (map node_id (nodes graph))))"

text \<open>\<open>adj.get(curr, [])\<close>\<close>

definition adj_get :: "adjacency \<Rightarrow> string \<Rightarrow> string list" where
  "adj_get adj cur = (case map_of adj cur of None \<Rightarrow> [] | Some nbs \<Rightarrow> nbs)"

definition source_keywords :: "string list" where
  "source_keywords = [''contamin'', ''particle'', ''metal'', ''ion'', ''precursor'',
     ''surface'', ''membrane'', ''material'', ''impurity'']"

definition outcome_keywords :: "string list" where
  "outcome_keywords = [''yield'', ''loss'', ''failure'', ''degrad'', ''resist'',
     ''performance'', ''defect'', ''wafer'', ''corrosion'']"

text \<open>
  The body of the inner \<open>for nb in adj.get(curr, [])\<close> loop, on the visited set and
  the queue:
  \<^verbatim>\<open>
  if nb not in visited_in_path:
      visited_in_path.add(nb)
      q.append((nb, path + [nb]))
  \<close>
\<close>

definition enqueue_neighbour ::
  "string list \<Rightarrow> string \<Rightarrow> string set \<times> (string \<times> string list) list \<Rightarrow>
     string set \<times> (string \<times> string list) list" where
  "enqueue_neighbour path nb st =
     (if nb \<notin> fst st then (insert nb (fst st), snd st @ [(nb, path @ [nb])]) else st)"

text \<open>
  The \<open>while q\<close> loop of one (source, outcome) search, with the queue, the visited
  set and \<open>all_paths\<close> as its state:
  \<^verbatim>\<open>
  while q:
      curr, path = q.popleft()
      if len(path) > max_hops: continue
      if curr == t:
          all_paths.append(path)
          continue
      for nb in adj.get(curr, []): ...
  \<close>
\<close>

definition reachable_ids :: "adjacency \<Rightarrow> string set" where
  "reachable_ids adj = \<Union> (set ` snd ` set adj)"

function bfs ::
  "adjacency \<Rightarrow> string \<Rightarrow> int \<Rightarrow> (string \<times> string list) list \<Rightarrow> string set \<Rightarrow>
     string list list \<Rightarrow> string list list" where
  "bfs adj t max_hops [] visited all_paths = all_paths"
| "bfs adj t max_hops ((cur, path) # q) visited all_paths =
     (if int (length path) > max_hops then bfs adj t max_hops q visited all_paths
      else if cur = t then bfs adj t max_hops q visited (all_paths @ [path])
      else bfs adj t max_hops
             (snd (fold (enqueue_neighbour path) (adj_get adj cur) (visited, q)))
             (fst (fold (enqueue_neighbour path) (adj_get adj cur) (visited, q)))
             all_paths)"
  by pat_completeness auto

lemma fold_enqueue_visited:
  "fst (fold (enqueue_neighbour path) nbs st) = fst st \<union> set nbs"
  by (induction nbs arbitrary: st) (auto simp: enqueue_neighbour_def)

lemma fold_enqueue_same:
  "set nbs \<subseteq> fst st \<Longrightarrow> fold (enqueue_neighbour path) nbs st = st"
  by (induction nbs arbitrary: st) (auto simp: enqueue_neighbour_def)

lemma adj_get_reachable: "set (adj_get adj cur) \<subseteq> reachable_ids adj"
proof (cases "map_of adj cur")
  case None
  then show ?thesis by (simp add: adj_get_def)
next
  case (Some nbs)
  then have "(cur, nbs) \<in> set adj" by (rule map_of_SomeD)
  then have "set nbs \<subseteq> reachable_ids adj" by (force simp: reachable_ids_def)
  with Some show ?thesis by (simp add: adj_get_def)
qed

lemma finite_reachable_ids: "finite (reachable_ids adj)"
  by (simp add: reachable_ids_def)

termination bfs
proof (relation "measures [\<lambda>(adj, t, max_hops, q, visited, all_paths). card (reachable_ids adj - visited),
                            \<lambda>(adj, t, max_hops, q, visited, all_paths). length q]", goal_cases)
  case 1
  then show ?case by simp
next
  case (2 adj t max_hops cur path q visited all_paths)
  then show ?case by simp
next
  case (3 adj t max_hops cur path q visited all_paths)
  then show ?case by simp
next
  case (4 adj t max_hops cur path q visited all_paths)
  let ?nbs = "adj_get adj cur"
  let ?st = "fold (enqueue_neighbour path) ?nbs (visited, q)"
  show ?case
  proof (cases "set ?nbs \<subseteq> visited")
    case True
    then have "?st = (visited, q)" by (simp add: fold_enqueue_same)
    then show ?thesis by simp
  next
    case False
    have v: "fst ?st = visited \<union> set ?nbs" by (simp add: fold_enqueue_visited)
    from False obtain nb where nb: "nb \<in> set ?nbs" "nb \<notin> visited" by auto
    then have "nb \<in> reachable_ids adj" using adj_get_reachable by blast
    then have "reachable_ids adj - fst ?st \<subset> reachable_ids adj - visited"
      using nb v by auto
    then have "card (reachable_ids adj - fst ?st) < card (reachable_ids adj - visited)"
      by (simp add: finite_reachable_ids psubset_card_mono)
    then show ?thesis by simp
  qed
qed


text \<open>
  One iteration of the double loop over the candidate pairs:
  \<^verbatim>\<open>
  if s == t: continue
  q = deque([(s, [s])])
  visited_in_path = {s}
  while q: ...
  \<close>
\<close>

definition search_pair ::
  "adjacency \<Rightarrow> int \<Rightarrow> string \<Rightarrow> string \<Rightarrow> string list list \<Rightarrow> string list list" where
  "search_pair adj max_hops s t all_paths =
     (if s = t then all_paths else bfs adj t max_hops [(s, [s])] {s} all_paths)"

text \<open>\<open>any(k in low for k in keywords)\<close>\<close>

definition matches_any :: "string list \<Rightarrow> string \<Rightarrow> bool" where
  "matches_any keywords low = list_ex (\<lambda>k. str_contains k low) keywords"

text \<open>
  \<open>node_lower = {n.id: n.id.lower() for n in graph.nodes}\<close> and the two candidate
  lists filtered from its items.
\<close>

definition node_lower :: "knowledge_graph_response \<Rightarrow> (string \<times> string) list" where
  "node_lower graph = map (\<lambda>k. (k, str_lower k)) (dict_keys (map node_id (nodes graph)))"

definition candidates :: "string list \<Rightarrow> knowledge_graph_response \<Rightarrow> string list" where
  "candidates keywords graph = map fst (filter (\<lambda>(nid, low). matches_any keywords low) (node_lower graph))"

text \<open>The pool \<open>all_paths\<close> after the double loop \<open>for s in sources: for t in targets\<close>.\<close>

definition pooled_paths ::
  "adjacency \<Rightarrow> int \<Rightarrow> string list \<Rightarrow> string list \<Rightarrow> string list list" where
  "pooled_paths adj max_hops sources targets =
     fold (\<lambda>s all_paths. fold (\<lambda>t all_paths. search_pair adj max_hops s t all_paths) targets all_paths)
       sources []"

text \<open>
  \<^verbatim>\<open>
  def path_discovery(graph, max_hops=4, top_k=5):
      adj = _build_adjacency(graph)
      if not adj: return []
      ...
      if not sources or not targets: return []
      ...
      if not all_paths: return []
      all_paths.sort(key=len)
      return all_paths[:top_k]
  \<close>
  \<open>list.sort\<close> is stable, as \<open>sort_key\<close> is.
\<close>

definition path_discovery :: "knowledge_graph_response \<Rightarrow> int \<Rightarrow> int \<Rightarrow> string list list" where
  "path_discovery graph max_hops top_k =
     (let adj = build_adjacency graph in
      if adj = [] then []
      else
        let sources = candidates source_keywords graph;
            targets = candidates outcome_keywords graph
        in if sources = [] \<or> targets = [] then []
           else
             let all_paths = pooled_paths adj max_hops sources targets
             in if all_paths = [] then []
                else py_slice (sort_key length all_paths) 0 top_k)"

text \<open>Example graphs.\<close>

definition mk_rel :: "string \<Rightarrow> string \<Rightarrow> relationship" where
  "mk_rel a b = \<lparr>rel_source = a, rel_target = b, rel_type = ''AFFECTS''\<rparr>"

definition mk_node :: "string \<Rightarrow> node" where
  "mk_node a = \<lparr>node_id = a, node_type = ''Concept''\<rparr>"

definition diamond_graph :: knowledge_graph_response where
  "diamond_graph =
     \<lparr>nodes = map mk_node [''Metal'', ''x'', ''y'', ''Yield''],
      relationships = [mk_rel ''Metal'' ''x'', mk_rel ''Metal'' ''y'', mk_rel ''x'' ''Yield'', mk_rel ''y'' ''Yield'']\<rparr>"


text \<open>
  A walk in the adjacency view: every node is followed by one of its listed
  neighbours. A simple path from \<open>s\<close> to \<open>t\<close> is a non-empty walk from \<open>s\<close> to
  \<open>t\<close> without repeated nodes.
\<close>

fun walk :: "adjacency \<Rightarrow> string list \<Rightarrow> bool" where
  "walk adj (x # y # rest) = (y \<in> set (adj_get adj x) \<and> walk adj (y # rest))"
| "walk adj _ = True"

definition simple_path :: "adjacency \<Rightarrow> string \<Rightarrow> string \<Rightarrow> string list \<Rightarrow> bool" where
  "simple_path adj s t p \<longleftrightarrow> p \<noteq> [] \<and> hd p = s \<and> last p = t \<and> distinct p \<and> walk adj p"

text \<open>
  The invariant of a queue entry \<open>(curr, path)\<close> and the property of a path appended
  to \<open>all_paths\<close>.
\<close>

definition entry_ok :: "adjacency \<Rightarrow> string \<Rightarrow> string set \<Rightarrow> string \<times> string list \<Rightarrow> bool" where
  "entry_ok adj s visited e \<longleftrightarrow>
     simple_path adj s (fst e) (snd e) \<and> set (snd e) \<subseteq> visited \<and>
     set (butlast (snd e)) \<subseteq> fst ` set adj"

definition found_ok :: "adjacency \<Rightarrow> string \<Rightarrow> string \<Rightarrow> int \<Rightarrow> string list \<Rightarrow> bool" where
  "found_ok adj s t max_hops p \<longleftrightarrow>
     simple_path adj s t p \<and> int (length p) \<le> max_hops \<and> set (butlast p) \<subseteq> fst ` set adj"

text \<open>
  How many more paths a search can still append: the queued entries at the outcome,
  and one more while the outcome is unvisited.
\<close>

definition pending :: "string \<Rightarrow> (string \<times> string list) list \<Rightarrow> string set \<Rightarrow> nat" where
  "pending t q visited = length (filter (\<lambda>e. fst e = t) q) + (if t \<in> visited then 0 else 1)"

text \<open>
  The queue holds paths in non-decreasing length, the last at most one longer than
  the first; \<open>progress w q visited\<close> says that some node of the walk \<open>w\<close> is queued
  with a path no longer than its position in \<open>w\<close>, and no later node of \<open>w\<close> is
  visited yet.
\<close>

definition front_sorted :: "(string \<times> string list) list \<Rightarrow> bool" where
  "front_sorted q \<longleftrightarrow>
     sorted (map (\<lambda>e. length (snd e)) q) \<and>
     (q \<noteq> [] \<longrightarrow> length (snd (last q)) \<le> Suc (length (snd (hd q))))"

definition progress :: "string list \<Rightarrow> (string \<times> string list) list \<Rightarrow> string set \<Rightarrow> bool" where
  "progress w q visited \<longleftrightarrow>
     (\<exists>i p. i < length w \<and> (w ! i, p) \<in> set q \<and> length p \<le> Suc i \<and>
            (\<forall>j. i < j \<and> j < length w \<longrightarrow> w ! j \<notin> visited))"

text \<open>A graph with two edges to the undeclared id \<open>Ghost\<close>.\<close>

definition dangling_graph :: knowledge_graph_response where
  "dangling_graph =
     \<lparr>nodes = map mk_node [''Metal ion'', ''Etch step'', ''Yield loss''],
      relationships = [mk_rel ''Metal ion'' ''Ghost'', mk_rel ''Ghost'' ''Yield loss'',
                       mk_rel ''Metal ion'' ''Etch step'', mk_rel ''Etch step'' ''Yield loss'']\<rparr>"

section \<open>Strings of Python, continued\<close>

text \<open>The quote, double quote, backslash and backtick characters.\<close>

definition sq :: char where "sq = CHR 0x27"
definition dq :: char where "dq = CHR 0x22"
definition bslash :: char where "bslash = CHR 0x5C"
definition btick :: char where "btick = CHR 0x60"
definition newline :: char where "newline = CHR 0x0A"

text \<open>
  \<open>str.isspace\<close> on one character, which is also the class \<open>\s\<close> of a \<open>str\<close>
  pattern: tab, line feed, vertical tab, form feed, carriage return, the separators
  0x1C to 0x1F, the space, and the Latin-1 characters 0x85 and 0xA0.
\<close>

definition py_isspace :: "char \<Rightarrow> bool" where
  "py_isspace c =
     (let n = (of_char c :: nat)
      in (9 \<le> n \<and> n \<le> 13) \<or> (28 \<le> n \<and> n \<le> 32) \<or> n = 133 \<or> n = 160)"

definition str_strip :: "string \<Rightarrow> string" where
  "str_strip s = rev (dropWhile py_isspace (rev (dropWhile py_isspace s)))"

text \<open>
  \<open>str.isdigit\<close>: the string is not empty and every character is a digit, which
  below 256 are 0 to 9 and the superscripts 0xB2, 0xB3 and 0xB9.
\<close>

definition digit_char :: "char \<Rightarrow> bool" where
  "digit_char c =
     (let n = (of_char c :: nat) in (48 \<le> n \<and> n \<le> 57) \<or> n = 178 \<or> n = 179 \<or> n = 185)"

definition str_isdigit :: "string \<Rightarrow> bool" where
  "str_isdigit s \<longleftrightarrow> s \<noteq> [] \<and> list_all digit_char s"

section \<open>Regular expressions of \<open>re\<close>: a backtracking matcher\<close>

text \<open>
  The constructs the patterns of \<open>utils.py\<close> use: literals, character classes,
  sequence, ordered alternation, the greedy quantifiers \<open>?\<close> and \<open>*\<close> (\<open>r+\<close> is
  \<open>r r*\<close>), and numbered capturing groups.
\<close>

datatype regex =
    Lit string
  | Chr "char \<Rightarrow> bool"
  | Seq regex regex
  | Alt regex regex
  | Opt regex
  | Star regex
  | Group nat regex

type_synonym caps = "nat \<rightharpoonup> string"

text \<open>
  \<open>rmatch r s c\<close> lists every way \<open>r\<close> can match a prefix of \<open>s\<close>, in the order a
  backtracking matcher tries them (the first alternative first, the longest
  repetition first), each as the unread rest of \<open>s\<close> with the groups captured so
  far. A repetition stops at an iteration that reads nothing.
\<close>

function rmatch :: "regex \<Rightarrow> string \<Rightarrow> caps \<Rightarrow> (string \<times> caps) list" where
  "rmatch (Lit l) s c = (if prefix l s then [(drop (length l) s, c)] else [])"
| "rmatch (Chr P) s c = (case s of [] \<Rightarrow> [] | x # xs \<Rightarrow> if P x then [(xs, c)] else [])"
| "rmatch (Seq a b) s c = concat (map (\<lambda>m. rmatch b (fst m) (snd m)) (rmatch a s c))"
| "rmatch (Alt a b) s c = rmatch a s c @ rmatch b s c"
| "rmatch (Opt a) s c = rmatch a s c @ [(s, c)]"
| "rmatch (Star a) s c =
     concat (map (\<lambda>m. rmatch (Star a) (fst m) (snd m))
               (filter (\<lambda>m. length (fst m) < length s) (rmatch a s c))) @ [(s, c)]"
| "rmatch (Group n a) s c =
     map (\<lambda>m. (fst m, (snd m)(n \<mapsto> take (length s - length (fst m)) s))) (rmatch a s c)"
  by pat_completeness auto
termination
  by (relation "measures [\<lambda>(r, s, c). size r, \<lambda>(r, s, c). length s]") auto

abbreviation Plus :: "regex \<Rightarrow> regex" where
  "Plus a \<equiv> Seq a (Star a)"

fun seqs :: "regex list \<Rightarrow> regex" where
  "seqs [] = Lit []"
| "seqs [r] = r"
| "seqs (r # rs) = Seq r (seqs rs)"

fun alts :: "string list \<Rightarrow> regex" where
  "alts [] = Chr (\<lambda>c. False)"
| "alts [l] = Lit l"
| "alts (l # ls) = Alt (Lit l) (alts ls)"

text \<open>\<open>re.search\<close>: the first match at the leftmost position that has one.\<close>

fun re_search :: "regex \<Rightarrow> string \<Rightarrow> caps option" where
  "re_search r [] = (case rmatch r [] Map.empty of [] \<Rightarrow> None | m # _ \<Rightarrow> Some (snd m))"
| "re_search r (x # xs) =
     (case rmatch r (x # xs) Map.empty of [] \<Rightarrow> re_search r xs | m # _ \<Rightarrow> Some (snd m))"

section \<open>utils.py: the rule-based Cypher generator\<close>

definition word_char :: "char \<Rightarrow> bool" where
  "word_char c = (let n = (of_char c :: nat) in
     (65 \<le> n \<and> n \<le> 90) \<or> (97 \<le> n \<and> n \<le> 122) \<or> (48 \<le> n \<and> n \<le> 57) \<or> n = 95)"

definition not_quote :: "char \<Rightarrow> bool" where
  "not_quote c \<longleftrightarrow> c \<noteq> sq \<and> c \<noteq> dq"

definition value_char :: "char \<Rightarrow> bool" where
  "value_char c \<longleftrightarrow> word_char c \<or> c = sq \<or> c = CHR ''-''"

definition ws1 :: regex where "ws1 = Plus (Chr py_isspace)"
definition ws0 :: regex where "ws0 = Star (Chr py_isspace)"
definition word1 :: regex where "word1 = Plus (Chr word_char)"
definition quote_opt :: regex where "quote_opt = Opt (Chr (\<lambda>c. c = sq \<or> c = dq))"
definition unquoted1 :: regex where "unquoted1 = Plus (Chr not_quote)"

text \<open>
  \<^verbatim>\<open>(find|show|get|list)\s+(?:all\s+)?(?:nodes\s+)?(?:of\s+type\s+|label\s+)?([A-Za-z0-9_]+)\<close>
\<close>

definition pattern_label :: regex where
  "pattern_label = seqs
     [Group 1 (alts [''find'', ''show'', ''get'', ''list'']), ws1,
      Opt (Seq (Lit ''all'') ws1),
      Opt (Seq (Lit ''nodes'') ws1),
      Opt (Alt (seqs [Lit ''of'', ws1, Lit ''type'', ws1]) (Seq (Lit ''label'') ws1)),
      Group 2 word1]"

text \<open>
  \<^verbatim>\<open>(?:find|show|get)\s+(?:nodes\s+)?(?:where\s+)?([A-Za-z0-9_]+)\s*(?:=|is|:)\s*['\"]?([^'\"]+)['\"]?\<close>
\<close>

definition pattern_property :: regex where
  "pattern_property = seqs
     [alts [''find'', ''show'', ''get''], ws1,
      Opt (Seq (Lit ''nodes'') ws1),
      Opt (Seq (Lit ''where'') ws1),
      Group 1 word1, ws0, alts [''='', ''is'', '':''], ws0,
      quote_opt, Group 2 unquoted1, quote_opt]"

text \<open>
  \<^verbatim>\<open>(?:neighbors|connected to|connections of|show related to)\s+(?:node\s+)?['\"]?([^'\"]+)['\"]?\<close>
\<close>

definition pattern_neighbors :: regex where
  "pattern_neighbors = seqs
     [alts [''neighbors'', ''connected to'', ''connections of'', ''show related to''], ws1,
      Opt (Seq (Lit ''node'') ws1),
      quote_opt, Group 1 unquoted1, quote_opt]"

text \<open>
  \<^verbatim>\<open>(?:path|relationship)s?\s+between\s+['\"]?([^'\"]+)['\"]?\s+(?:and|&)\s+['\"]?([^'\"]+)['\"]?\<close>
\<close>

definition pattern_path :: regex where
  "pattern_path = seqs
     [alts [''path'', ''relationship''], Opt (Lit ''s''), ws1, Lit ''between'', ws1,
      quote_opt, Group 1 unquoted1, quote_opt, ws1, alts [''and'', ''&''], ws1,
      quote_opt, Group 2 unquoted1, quote_opt]"

text \<open>\<^verbatim>\<open>(?:count|how many)\s+(?:nodes\s+)?([A-Za-z0-9_]+)\<close>\<close>

definition pattern_count :: regex where
  "pattern_count = seqs
     [alts [''count'', ''how many''], ws1, Opt (Seq (Lit ''nodes'') ws1), Group 1 word1]"

text \<open>\<^verbatim>\<open>([A-Za-z0-9_]+)\s+(?:is|=|:)\s*([A-Za-z0-9_'-]+)\<close>\<close>

definition pattern_generic :: regex where
  "pattern_generic = seqs
     [Group 1 word1, ws1, alts [''is'', ''='', '':''], ws0, Group 2 (Plus (Chr value_char))]"

text \<open>
  \<open>m.group(n)\<close> is \<open>None\<close> for a group that took no part in the match. An f-string
  prints \<open>None\<close> as the text \<open>None\<close>; a method call on \<open>None\<close> raises
  \<open>AttributeError\<close>.
\<close>

definition fmt :: "string option \<Rightarrow> string" where
  "fmt v = (case v of None \<Rightarrow> ''None'' | Some s \<Rightarrow> s)"

text \<open>
  \<^verbatim>\<open>
  def _escape_cypher_string(s):
      return s.replace("'", "\\'") if s is not None else s
  \<close>
\<close>

definition escape_cypher_string :: "string option \<Rightarrow> string option" where
  "escape_cypher_string s =
     map_option (\<lambda>t. concat (map (\<lambda>c. if c = sq then [bslash, sq] else [c]) t)) s"

definition none_has_no :: "string \<Rightarrow> py_error" where
  "none_has_no attr = AttributeError (''NoneType object has no attribute '' @ attr)"

definition empty_input_placeholder :: string where
  "empty_input_placeholder = ''-- empty input: no cypher generated''"

definition safe_hint :: string where
  "safe_hint =
     ''-- Couldn'' @ [sq] @ ''t map input automatically. Example queries:'' @ [newline] @
     ''-- 1) find nodes of type Device'' @ [newline] @
     ''-- 2) show neighbors of '' @ [sq] @ ''Pump-123'' @ [sq] @ [newline] @
     ''-- 3) path between '' @ [sq] @ ''Alice'' @ [sq] @ '' and '' @ [sq] @ ''Bob'' @ [sq] @ [newline] @
     ''MATCH (n) RETURN n LIMIT 50''"

text \<open>The query templates, one per return statement.\<close>

definition label_scan :: "string \<Rightarrow> string" where
  "label_scan label = ''MATCH (n:'' @ [btick] @ label @ [btick] @ '') RETURN n LIMIT 200''"

definition property_number :: "string \<Rightarrow> string \<Rightarrow> string" where
  "property_number prop v =
     ''MATCH (n) WHERE coalesce(n.'' @ prop @ '', '' @ [sq, sq] @ '') = '' @ v @
     '' OR toString(n.'' @ prop @ '') = '' @ [sq] @ v @ [sq] @ '' RETURN n LIMIT 200''"

definition property_string :: "string \<Rightarrow> string \<Rightarrow> string" where
  "property_string prop v =
     ''MATCH (n) WHERE toLower(coalesce(n.'' @ prop @ '', '' @ [sq, sq] @ '')) = '' @
     [sq] @ str_lower v @ [sq] @ '' RETURN n LIMIT 200''"

definition neighbors_query :: "string \<Rightarrow> string" where
  "neighbors_query name =
     ''MATCH (n) WHERE toLower(coalesce(n.name,'' @ [sq, sq] @ '')) = '' @
     [sq] @ str_lower name @ [sq] @
     '' OR toLower(coalesce(n.id,'' @ [sq, sq] @ '')) = '' @ [sq] @ str_lower name @ [sq] @ '' '' @
     ''MATCH (n)-[r]-(m) RETURN n, r, m LIMIT 300''"

definition path_query :: "string \<Rightarrow> string \<Rightarrow> string" where
  "path_query a b =
     ''MATCH (a), (b) WHERE (toLower(coalesce(a.name,'' @ [sq, sq] @ '')) = '' @
     [sq] @ str_lower a @ [sq] @
     '' OR toLower(coalesce(a.id,'' @ [sq, sq] @ '')) = '' @ [sq] @ str_lower a @ [sq] @ '') '' @
     ''AND (toLower(coalesce(b.name,'' @ [sq, sq] @ '')) = '' @ [sq] @ str_lower b @ [sq] @
     '' OR toLower(coalesce(b.id,'' @ [sq, sq] @ '')) = '' @ [sq] @ str_lower b @ [sq] @ '') '' @
     ''MATCH p = shortestPath((a)-[*..6]-(b)) RETURN p LIMIT 1''"

definition count_query :: "string \<Rightarrow> string" where
  "count_query label = ''MATCH (n:'' @ [btick] @ label @ [btick] @ '') RETURN count(n) as count''"

definition generic_number :: "string \<Rightarrow> string \<Rightarrow> string" where
  "generic_number prop v = ''MATCH (n) WHERE n.'' @ prop @ '' = '' @ v @ '' RETURN n LIMIT 200''"

text \<open>
  \<open>text_to_cypher_simple\<close>: the rules in the order of the source, the first that
  matches wins.
\<close>

definition text_to_cypher_simple :: "string \<Rightarrow> py_error + string" where
  "text_to_cypher_simple nl =
     (if nl = [] \<or> str_strip nl = [] then Inr empty_input_placeholder
      else
        let text = str_lower (str_strip nl) in
        case re_search pattern_label text of
          Some m \<Rightarrow> Inr (label_scan (fmt (m 2)))
        | None \<Rightarrow>
        (case re_search pattern_property text of
          Some m \<Rightarrow>
            (case escape_cypher_string (m 2) of
               None \<Rightarrow> Inl (none_has_no ''isdigit'')
             | Some v \<Rightarrow>
                 if str_isdigit v then Inr (property_number (fmt (m 1)) v)
                 else Inr (property_string (fmt (m 1)) v))
        | None \<Rightarrow>
        (case re_search pattern_neighbors text of
          Some m \<Rightarrow>
            (case escape_cypher_string (m 1) of
               None \<Rightarrow> Inl (none_has_no ''lower'')
             | Some name \<Rightarrow> Inr (neighbors_query name))
        | None \<Rightarrow>
        (case re_search pattern_path text of
          Some m \<Rightarrow>
            (case (escape_cypher_string (m 1), escape_cypher_string (m 2)) of
               (Some a, Some b) \<Rightarrow> Inr (path_query a b)
             | _ \<Rightarrow> Inl (none_has_no ''lower''))
        | None \<Rightarrow>
        (case re_search pattern_count text of
          Some m \<Rightarrow> Inr (count_query (fmt (m 1)))
        | None \<Rightarrow>
        (case re_search pattern_generic text of
          Some m \<Rightarrow>
            (case escape_cypher_string (m 2) of
               None \<Rightarrow> Inl (none_has_no ''isdigit'')
             | Some v \<Rightarrow>
                 if str_isdigit v then Inr (generic_number (fmt (m 1)) v)
                 else Inr (property_string (fmt (m 1)) v))
        | None \<Rightarrow> Inr safe_hint))))))"

text \<open>The groups that take part in every match of a pattern.\<close>

fun must_groups :: "regex \<Rightarrow> nat set" where
  "must_groups (Lit l) = {}"
| "must_groups (Chr P) = {}"
| "must_groups (Seq a b) = must_groups a \<union> must_groups b"
| "must_groups (Alt a b) = must_groups a \<inter> must_groups b"
| "must_groups (Opt a) = {}"
| "must_groups (Star a) = {}"
| "must_groups (Group n a) = insert n (must_groups a)"

text \<open>
  The shape of every result: a query that starts with a \<open>MATCH\<close> clause, or one of
  the two comment texts.
\<close>

definition is_query :: "string \<Rightarrow> bool" where
  "is_query q \<longleftrightarrow> prefix ''MATCH ('' q \<or> q = empty_input_placeholder \<or> q = safe_hint"

text \<open>
  The write clauses of Cypher, and the literal reading of "contains a mutating verb":
  one of them occurs in the query text, in any letter case.
\<close>

definition mutating_verbs :: "string list" where
  "mutating_verbs = [''create'', ''delete'', ''set'', ''merge'', ''remove'', ''drop'']"

definition contains_mutating_verb :: "string \<Rightarrow> bool" where
  "contains_mutating_verb q = list_ex (\<lambda>v. str_contains v (str_lower q)) mutating_verbs"

text \<open>
  A necessary condition of syntactic validity: every single-quoted literal is closed,
  where a backslash inside a literal escapes the next character (the convention
  \<open>_escape_cypher_string\<close> relies on).
\<close>

datatype quote_state = Outside | Inside | Escaped

definition quote_step :: "char \<Rightarrow> quote_state \<Rightarrow> quote_state" where
  "quote_step c st =
     (case st of
        Outside \<Rightarrow> if c = sq then Inside else Outside
      | Inside \<Rightarrow> if c = bslash then Escaped else if c = sq then Outside else Inside
      | Escaped \<Rightarrow> Inside)"

definition literals_closed :: "string \<Rightarrow> bool" where
  "literals_closed q \<longleftrightarrow> fold quote_step q Outside = Outside"

text \<open>
  Where a write clause can occur in a query. The write clauses are words of lower-case
  letters, so none of them crosses a character that is not a letter: \<open>sep\<close> holds of
  such a character, \<open>no_verb\<close> of a text in which no write clause occurs, and
  \<open>ends_ok\<close>, \<open>starts_ok\<close> and \<open>mid_ok\<close> of a fixed piece of a template that
  contains no write clause and ends, starts, or ends and starts with a separator.
  \<open>escape_text\<close> is \<open>_escape_cypher_string\<close> on a string.
\<close>

definition low_letter :: "char \<Rightarrow> bool" where
  "low_letter c = (let n = (of_char c :: nat) in 97 \<le> n \<and> n \<le> 122)"

definition sep :: "char \<Rightarrow> bool" where
  "sep c \<longleftrightarrow> \<not> low_letter (lower_char c)"

definition escape_text :: "string \<Rightarrow> string" where
  "escape_text s = concat (map (\<lambda>c. if c = sq then [bslash, sq] else [c]) s)"

definition no_verb :: "string \<Rightarrow> bool" where
  "no_verb s \<longleftrightarrow> list_all (\<lambda>v. \<not> sublist v (str_lower s)) mutating_verbs"

definition ends_ok :: "string \<Rightarrow> bool" where
  "ends_ok p \<longleftrightarrow> no_verb p \<and> p \<noteq> [] \<and> sep (last p)"

definition starts_ok :: "string \<Rightarrow> bool" where
  "starts_ok p \<longleftrightarrow> no_verb p \<and> p \<noteq> [] \<and> sep (hd p)"

definition mid_ok :: "string \<Rightarrow> bool" where
  "mid_ok p \<longleftrightarrow> starts_ok p \<and> ends_ok p"

section \<open>Exceptions and values of the external services\<close>

text \<open>
  What an external call raises: an instance of \<open>Exception\<close> with its text
  \<open>str(e)\<close>, which \<open>except Exception\<close> catches, or another \<open>BaseException\<close>
  (\<open>CancelledError\<close>, \<open>SystemExit\<close>, \<open>KeyboardInterrupt\<close>), which it does not catch.
\<close>

datatype py_exc = Exc string | BaseExc string

definition error_text :: "py_error \<Rightarrow> string" where
  "error_text e =
     (case e of ValueError m \<Rightarrow> m | RuntimeError m \<Rightarrow> m | AttributeError m \<Rightarrow> m
      | OtherError m \<Rightarrow> m)"

text \<open>
  The value under the key \<open>results\<close>: \<open>None\<close>, a list of rows (each row kept as
  its text), or the dict \<open>{"error": message}\<close>. \<open>not data\<close> holds of \<open>None\<close> and of
  the empty list; a dict with a key is true.
\<close>

datatype py_results = PyNone | Rows "string list" | ErrorDict string

fun truthy :: "py_results \<Rightarrow> bool" where
  "truthy PyNone = False"
| "truthy (Rows rows) = (rows \<noteq> [])"
| "truthy (ErrorDict message) = True"

text \<open>\<open>str(n)\<close> for a natural number: its decimal digits.\<close>

fun str_nat :: "nat \<Rightarrow> string" where
  "str_nat n =
     (if n < 10 then [char_of (48 + n)] else str_nat (n div 10) @ [char_of (48 + n mod 10)])"

declare str_nat.simps [simp del]

text \<open>\<open>s.strip(chars)\<close> for a set of characters, and \<open>s.replace(old, new)\<close> for a
  non-empty \<open>old\<close>: the occurrences are replaced from the left, without overlap.\<close>

definition strip_chars :: "(char \<Rightarrow> bool) \<Rightarrow> string \<Rightarrow> string" where
  "strip_chars P s = rev (dropWhile P (rev (dropWhile P s)))"

function str_replace :: "string \<Rightarrow> string \<Rightarrow> string \<Rightarrow> string" where
  "str_replace old new [] = []"
| "str_replace old new (c # cs) =
     (if old \<noteq> [] \<and> prefix old (c # cs)
      then new @ str_replace old new (drop (length old) (c # cs))
      else c # str_replace old new cs)"
  by pat_completeness auto
termination
  by (relation "measure (\<lambda>(old, new, s). length s)") (auto simp: Suc_le_eq)

section \<open>models.py: citations\<close>

text \<open>
  \<^verbatim>\<open>
  class Citation(BaseModel):
      id: str; type: str; content: str
      source_file: Optional[str] = None
      metadata: Optional[Dict] = None
  \<close>
  The only metadata the orchestrator stores is \<open>{"data": data}\<close>.
\<close>

record citation =
  cit_id :: string
  cit_type :: string
  cit_content :: string
  cit_source_file :: "string option"
  cit_metadata :: "py_results option"

section \<open>The external services of one request\<close>

text \<open>
  A hit of the vector index: \<open>doc['text']\<close>, and the value of \<open>filename\<close> in its
  metadata if there is one.
\<close>

record doc =
  doc_text :: string
  doc_filename :: "string option"

text \<open>
  The model-based translation inside the \<open>try\<close> of \<open>text_to_cypher_and_run\<close>: it
  raises before the request is awaited (the task does not suspend), or the awaited
  request replies with the raw text, or the awaited request raises.
\<close>

datatype llm_outcome = SetupRaised py_exc | Replied string | CallRaised py_exc

text \<open>
  Everything outside the code that one request depends on: the vector index, the
  environment, the language model, the graph database, the serialiser, the web
  search tool, and, when both the graph task and the web task are suspended, which
  of the two resumes first.
\<close>

record world =
  vector_search :: "string \<Rightarrow> py_exc + doc list"
  groq_api_key :: bool
  cypher_llm :: "string \<Rightarrow> llm_outcome"
  neo4j_driver :: bool
  neo4j_read :: "string \<Rightarrow> py_exc + string list"
  neo4j_env :: bool
  neo4j_session :: "string \<Rightarrow> py_exc + string list"
  json_dumps :: "py_results \<Rightarrow> py_exc + string"
  ddg_init :: "py_exc option"
  ddg_run :: "string \<Rightarrow> py_exc + string"
  synthesis :: "string \<Rightarrow> string \<Rightarrow> string \<Rightarrow> string \<Rightarrow> py_exc + string"
  web_resumes_first :: bool

section \<open>database.py: running a query\<close>

text \<open>
  \<^verbatim>\<open>
  def run_query_if_neo4j(cypher, parameters=None):
      driver = get_neo4j_driver()
      if not driver:
          return {"error": "Neo4j driver not available."}
      try:
          with driver.session() as session:
              result = session.execute_read(lambda tx: [r.data() for r in tx.run(cypher, parameters or {})])
          return result
      except Exception as e:
          return {"error": str(e)}
  \<close>
\<close>

definition run_query_if_neo4j :: "world \<Rightarrow> string \<Rightarrow> py_exc + py_results" where
  "run_query_if_neo4j w cypher =
     (if \<not> neo4j_driver w then Inr (ErrorDict ''Neo4j driver not available.'')
      else (case neo4j_read w cypher of
              Inr result \<Rightarrow> Inr (Rows result)
            | Inl (Exc e) \<Rightarrow> Inr (ErrorDict e)
            | Inl (BaseExc e) \<Rightarrow> Inl (BaseExc e)))"

section \<open>chat\_agent.py: translating and running a query\<close>

record cypher_response =
  resp_cypher :: string
  resp_results :: py_results
  resp_note :: string

text \<open>
  \<open>raw_cypher.strip().strip('`').replace('cypher', '').strip()\<close>
\<close>

definition clean_cypher :: "string \<Rightarrow> string" where
  "clean_cypher raw_cypher =
     str_strip (str_replace ''cypher'' [] (strip_chars (\<lambda>c. c = btick) (str_strip raw_cypher)))"

text \<open>
  Step 1 of \<open>text_to_cypher_and_run\<close>: the pair of \<open>cypher\<close> (\<open>None\<close> when no
  translation was tried) and \<open>note\<close>.
  \<^verbatim>\<open>
  cypher = None
  note = ""
  if use_llm and os.getenv("GROQ_API_KEY"):
      try:
          ...
          resp = await rag_chain.ainvoke(natural_text)
          raw_cypher = resp.content if hasattr(resp, "content") else str(resp)
          cypher = raw_cypher.strip().strip('`').replace('cypher', '').strip()
          note = "generated_via_llm"
      except Exception as e:
          note = f"llm_generation_failed: {e}"
          cypher = text_to_cypher_simple(natural_text)
  \<close>
\<close>

definition rule_based :: "string \<Rightarrow> py_exc + string" where
  "rule_based natural_text =
     (case text_to_cypher_simple natural_text of
        Inl e \<Rightarrow> Inl (Exc (error_text e)) | Inr q \<Rightarrow> Inr q)"

definition llm_step :: "world \<Rightarrow> string \<Rightarrow> bool \<Rightarrow> py_exc + (string option \<times> string)" where
  "llm_step w natural_text use_llm =
     (if use_llm \<and> groq_api_key w then
        (case cypher_llm w natural_text of
           Replied raw_cypher \<Rightarrow> Inr (Some (clean_cypher raw_cypher), ''generated_via_llm'')
         | SetupRaised (BaseExc e) \<Rightarrow> Inl (BaseExc e)
         | CallRaised (BaseExc e) \<Rightarrow> Inl (BaseExc e)
         | SetupRaised (Exc e) \<Rightarrow>
             (case rule_based natural_text of
                Inl x \<Rightarrow> Inl x
              | Inr q \<Rightarrow> Inr (Some q, ''llm_generation_failed: '' @ e))
         | CallRaised (Exc e) \<Rightarrow>
             (case rule_based natural_text of
                Inl x \<Rightarrow> Inl x
              | Inr q \<Rightarrow> Inr (Some q, ''llm_generation_failed: '' @ e)))
      else Inr (None, []))"

text \<open>
  Step 2, the rule-based fallback when \<open>cypher\<close> is \<open>None\<close> or empty:
  \<^verbatim>\<open>
  if not cypher:
      cypher = text_to_cypher_simple(natural_text)
      if not note:
          note = "generated_via_rule_based"
  \<close>
\<close>

definition fallback_step :: "string \<Rightarrow> string option \<times> string \<Rightarrow> py_exc + (string \<times> string)" where
  "fallback_step natural_text st =
     (case st of
        (Some cypher, note) \<Rightarrow>
          if cypher \<noteq> [] then Inr (cypher, note)
          else (case rule_based natural_text of
                  Inl x \<Rightarrow> Inl x
                | Inr q \<Rightarrow> Inr (q, if note = [] then ''generated_via_rule_based'' else note))
      | (None, note) \<Rightarrow>
          (case rule_based natural_text of
             Inl x \<Rightarrow> Inl x
           | Inr q \<Rightarrow> Inr (q, if note = [] then ''generated_via_rule_based'' else note)))"

text \<open>
  Steps 3 and 4: run the query with the function the caller gave, or else directly
  when the connection settings are in the environment.
  \<^verbatim>\<open>
  results = None
  if run_query_fn:
      try:
          results = run_query_fn(cypher)
          ...
      except Exception as e:
          results = {"error": str(e)}
          note += " | run_query_fn_failed"
      return {"cypher": cypher, "results": results, "note": note}
  ...
  if neo_uri and neo_user and neo_pass:
      try:
          ...
          note += " | executed_on_neo4j"
      except Exception as e:
          results = {"error": f"neo4j_exec_failed: {e}"}
          note += " | neo4j_exec_failed"
  return {"cypher": cypher, "results": results, "note": note}
  \<close>
\<close>

definition run_step ::
  "world \<Rightarrow> (string \<Rightarrow> py_exc + py_results) option \<Rightarrow> string \<times> string \<Rightarrow>
     py_exc + cypher_response" where
  "run_step w run_query_fn st =
     (let cypher = fst st; note = snd st in
      case run_query_fn of
        Some f \<Rightarrow>
          (case f cypher of
             Inr results \<Rightarrow>
               Inr \<lparr>resp_cypher = cypher, resp_results = results, resp_note = note\<rparr>
           | Inl (Exc e) \<Rightarrow>
               Inr \<lparr>resp_cypher = cypher, resp_results = ErrorDict e,
                    resp_note = note @ '' | run_query_fn_failed''\<rparr>
           | Inl (BaseExc e) \<Rightarrow> Inl (BaseExc e))
      | None \<Rightarrow>
          if neo4j_env w then
            (case neo4j_session w cypher of
               Inr records \<Rightarrow>
                 Inr \<lparr>resp_cypher = cypher, resp_results = Rows records,
                      resp_note = note @ '' | executed_on_neo4j''\<rparr>
             | Inl (Exc e) \<Rightarrow>
                 Inr \<lparr>resp_cypher = cypher, resp_results = ErrorDict (''neo4j_exec_failed: '' @ e),
                      resp_note = note @ '' | neo4j_exec_failed''\<rparr>
             | Inl (BaseExc e) \<Rightarrow> Inl (BaseExc e))
          else Inr \<lparr>resp_cypher = cypher, resp_results = PyNone, resp_note = note\<rparr>)"

definition text_to_cypher_and_run ::
  "world \<Rightarrow> string \<Rightarrow> (string \<Rightarrow> py_exc + py_results) option \<Rightarrow> bool \<Rightarrow>
     py_exc + cypher_response" where
  "text_to_cypher_and_run w natural_text run_query_fn use_llm =
     (case llm_step w natural_text use_llm of
        Inl x \<Rightarrow> Inl x
      | Inr st \<Rightarrow>
          (case fallback_step natural_text st of
             Inl x \<Rightarrow> Inl x
           | Inr st' \<Rightarrow> run_step w run_query_fn st'))"

section \<open>hybrid\_agent.py: the three retrieval tasks\<close>

text \<open>
  A task returns its context text; the citations it appends to the shared
  \<open>citations_list\<close> are returned beside it. A task that raises is \<open>Inl\<close>.
  \<^verbatim>\<open>
  async def task_vector():
      raw_docs = vector_db.search(query, k=3)
      context_str = ""
      if not raw_docs: return "No relevant internal documents found."
      for i, doc in enumerate(raw_docs):
          ref_id = f"Doc-{i+1}"
          snippet = doc['text']
          fname = doc.get('metadata', {}).get('filename', 'Unknown')
          context_str += f"[{ref_id}] (File: {fname}): {snippet}\n\n"
          citations_list.append(Citation(id=ref_id, type="text", content=snippet, source_file=fname))
      return context_str
  \<close>
\<close>

definition doc_ref_id :: "nat \<Rightarrow> string" where
  "doc_ref_id i = ''Doc-'' @ str_nat (i + 1)"

definition fname :: "doc \<Rightarrow> string" where
  "fname d = (case doc_filename d of None \<Rightarrow> ''Unknown'' | Some f \<Rightarrow> f)"

definition doc_context :: "nat \<times> doc \<Rightarrow> string" where
  "doc_context e =
     ''['' @ doc_ref_id (fst e) @ ''] (File: '' @ fname (snd e) @ ''): '' @ doc_text (snd e) @
     [newline, newline]"

definition doc_citation :: "nat \<times> doc \<Rightarrow> citation" where
  "doc_citation e =
     \<lparr>cit_id = doc_ref_id (fst e), cit_type = ''text'', cit_content = doc_text (snd e),
      cit_source_file = Some (fname (snd e)), cit_metadata = None\<rparr>"

definition task_vector :: "world \<Rightarrow> string \<Rightarrow> py_exc + (string \<times> citation list)" where
  "task_vector w query =
     (case vector_search w query of
        Inl e \<Rightarrow> Inl e
      | Inr raw_docs \<Rightarrow>
          if raw_docs = [] then Inr (''No relevant internal documents found.'', [])
          else Inr (concat (map doc_context (enumerate 0 raw_docs)),
                    map doc_citation (enumerate 0 raw_docs)))"

text \<open>
  \<^verbatim>\<open>
  async def task_graph():
      try:
          response = await text_to_cypher_and_run(query, run_query_fn=run_query_if_neo4j, use_llm=True)
          data = response.get("results", [])
          cypher = response.get("cypher", "")
          if not data: return "No graph data found."
          ref_id = "Graph-1"
          json_str = json.dumps(data, indent=2)
          citations_list.append(Citation(id=ref_id, type="graph", content=f"Cypher: {cypher}", metadata={"data": data}))
          return f"[{ref_id}] Cypher: {cypher}\nResults: {json_str}"
      except Exception as e:
          return f"Graph Error: {e}"
  \<close>
\<close>

definition graph_citation :: "string \<Rightarrow> py_results \<Rightarrow> citation" where
  "graph_citation cypher data =
     \<lparr>cit_id = ''Graph-1'', cit_type = ''graph'', cit_content = ''Cypher: '' @ cypher,
      cit_source_file = None, cit_metadata = Some data\<rparr>"

definition task_graph :: "world \<Rightarrow> string \<Rightarrow> py_exc + (string \<times> citation list)" where
  "task_graph w query =
     (case text_to_cypher_and_run w query (Some (run_query_if_neo4j w)) True of
        Inl (Exc e) \<Rightarrow> Inr (''Graph Error: '' @ e, [])
      | Inl (BaseExc e) \<Rightarrow> Inl (BaseExc e)
      | Inr response \<Rightarrow>
          (let data = resp_results response; cypher = resp_cypher response in
           if \<not> truthy data then Inr (''No graph data found.'', [])
           else (case json_dumps w data of
                   Inl (Exc e) \<Rightarrow> Inr (''Graph Error: '' @ e, [])
                 | Inl (BaseExc e) \<Rightarrow> Inl (BaseExc e)
                 | Inr json_str \<Rightarrow>
                     Inr (''[Graph-1] Cypher: '' @ cypher @ [newline] @ ''Results: '' @ json_str,
                          [graph_citation cypher data]))))"

text \<open>
  \<^verbatim>\<open>
  async def search_web_only(query):
      search_tool = DuckDuckGoSearchRun()
      search_query = f"Entegris products and news: {query}"
      try:
          loop = asyncio.get_running_loop()
          retrieved_context = await loop.run_in_executor(None, search_tool.run, search_query)
      except Exception as e:
          retrieved_context = ""
      if not retrieved_context.strip():
          return ""
      return retrieved_context

  async def task_web():
      web_text = await search_web_only(query)
      if not web_text: return "No web results found."
      ref_id = "Web-1"
      citations_list.append(Citation(id=ref_id, type="web", content=web_text, source_file="DuckDuckGo"))
      return f"[{ref_id}] Live Search Results: {web_text}"
  \<close>
\<close>

definition search_web_only :: "world \<Rightarrow> string \<Rightarrow> py_exc + string" where
  "search_web_only w query =
     (case ddg_init w of
        Some e \<Rightarrow> Inl e
      | None \<Rightarrow>
          (case ddg_run w (''Entegris products and news: '' @ query) of
             Inl (BaseExc e) \<Rightarrow> Inl (BaseExc e)
           | Inl (Exc e) \<Rightarrow> Inr []
           | Inr retrieved_context \<Rightarrow>
               if str_strip retrieved_context = [] then Inr [] else Inr retrieved_context))"

definition web_citation :: "string \<Rightarrow> citation" where
  "web_citation web_text =
     \<lparr>cit_id = ''Web-1'', cit_type = ''web'', cit_content = web_text,
      cit_source_file = Some ''DuckDuckGo'', cit_metadata = None\<rparr>"

definition task_web :: "world \<Rightarrow> string \<Rightarrow> py_exc + (string \<times> citation list)" where
  "task_web w query =
     (case search_web_only w query of
        Inl e \<Rightarrow> Inl e
      | Inr web_text \<Rightarrow>
          if web_text = [] then Inr (''No web results found.'', [])
          else Inr (''[Web-1] Live Search Results: '' @ web_text, [web_citation web_text]))"

section \<open>hybrid\_agent.py: the gather and the synthesis\<close>

text \<open>
  \<open>asyncio.gather(task_vector(), task_graph(), task_web())\<close> starts the three tasks
  in this order on one event loop. \<open>task_vector\<close> awaits nothing and runs to its
  end at once. \<open>task_graph\<close> suspends only at the awaited request of the
  model-based translation, and \<open>task_web\<close> at the executor call once the tool is
  built. A task appends its citations in the step in which it ends, so the shared
  list is filled in the order in which the tasks end.
\<close>

definition graph_suspends :: "world \<Rightarrow> string \<Rightarrow> bool" where
  "graph_suspends w query \<longleftrightarrow>
     groq_api_key w \<and> (case cypher_llm w query of SetupRaised e \<Rightarrow> False | _ \<Rightarrow> True)"

definition web_suspends :: "world \<Rightarrow> bool" where
  "web_suspends w \<longleftrightarrow> ddg_init w = None"

definition web_ends_before_graph :: "world \<Rightarrow> string \<Rightarrow> bool" where
  "web_ends_before_graph w query \<longleftrightarrow>
     graph_suspends w query \<and> (\<not> web_suspends w \<or> web_resumes_first w)"

text \<open>
  The tasks in the order in which they end. Without \<open>return_exceptions\<close> the gather
  raises the exception of the first task that ends by raising; otherwise the shared
  list holds the citations in this order.
\<close>

fun collect :: "(py_exc + (string \<times> citation list)) list \<Rightarrow> citation list \<Rightarrow> py_exc + citation list" where
  "collect [] citations_list = Inr citations_list"
| "collect (Inl e # rest) citations_list = Inl e"
| "collect (Inr r # rest) citations_list = collect rest (citations_list @ snd r)"

record combined_response =
  answer :: string
  citations :: "citation list"

definition context_of :: "py_exc + (string \<times> citation list) \<Rightarrow> string" where
  "context_of r = (case r of Inl e \<Rightarrow> [] | Inr x \<Rightarrow> fst x)"

text \<open>
  \<^verbatim>\<open>
  vector_ctx, graph_ctx, web_ctx = await asyncio.gather(task_vector(), task_graph(), task_web())
  ...
  final_answer = await chain.ainvoke({"vector_ctx": vector_ctx, "graph_ctx": graph_ctx,
                                      "web_ctx": web_ctx, "question": query})
  return {"answer": final_answer, "citations": citations_list}
  \<close>
\<close>

definition get_combined_response :: "world \<Rightarrow> string \<Rightarrow> py_exc + combined_response" where
  "get_combined_response w query =
     (let v = task_vector w query; g = task_graph w query; wb = task_web w query;
          ended = (if web_ends_before_graph w query then [v, wb, g] else [v, g, wb])
      in case collect ended [] of
           Inl e \<Rightarrow> Inl e
         | Inr citations_list \<Rightarrow>
             (case synthesis w (context_of v) (context_of g) (context_of wb) query of
                Inl e \<Rightarrow> Inl e
              | Inr final_answer \<Rightarrow>
                  Inr \<lparr>answer = final_answer, citations = citations_list\<rparr>))"

text \<open>
  Example services: two vector hits, a translation by the model, one row, a web
  text. The serialiser of the example writes an error dict and a list of rows the
  way \<open>json.dumps(data, indent=2)\<close> lays them out.
\<close>

definition render :: "py_results \<Rightarrow> py_exc + string" where
  "render data =
     (case data of
        PyNone \<Rightarrow> Inr ''null''
      | Rows rows \<Rightarrow>
          (case rows of
             [] \<Rightarrow> Inr ''[]''
           | r # rs \<Rightarrow>
               Inr (''['' @ [newline] @ ''  '' @ r @
                    concat (map (\<lambda>x. '','' @ [newline] @ ''  '' @ x) rs) @ [newline] @ '']''))
      | ErrorDict message \<Rightarrow>
          Inr (''{'' @ [newline] @ ''  '' @ [dq] @ ''error'' @ [dq] @ '': '' @ [dq] @ message @ [dq] @
               [newline] @ ''}''))"

definition example_world :: world where
  "example_world =
     \<lparr>vector_search = (\<lambda>q. Inr [\<lparr>doc_text = ''Use filter A.'', doc_filename = Some ''manual.pdf''\<rparr>,
                               \<lparr>doc_text = ''Replace yearly.'', doc_filename = None\<rparr>]),
      groq_api_key = True,
      cypher_llm = (\<lambda>q. Replied ''MATCH (n) RETURN n LIMIT 5''),
      neo4j_driver = True,
      neo4j_read = (\<lambda>c. Inr [''{}'']),
      neo4j_env = False,
      neo4j_session = (\<lambda>c. Inr []),
      json_dumps = render,
      ddg_init = None,
      ddg_run = (\<lambda>q. Inr ''Entegris news''),
      synthesis = (\<lambda>v g wb q. Inr ''answer''),
      web_resumes_first = False\<rparr>"

text \<open>The same services with the web search ending first, with a failing graph
  database, and with a failing web search.\<close>

definition web_first_world :: world where
  "web_first_world = example_world\<lparr>web_resumes_first := True\<rparr>"

definition graph_down_world :: world where
  "graph_down_world = example_world\<lparr>neo4j_read := (\<lambda>c. Inl (Exc ''connection refused''))\<rparr>"


section \<open>The chunker: results\<close>

lemma concat_windows:
  "concat (map (\<lambda>j. take s (drop (j * s) u)) [0..<m]) = take (m * s) u"
proof (induction m)
  case 0
  then show ?case by simp
next
  case (Suc m)
  have "take (m * s) u @ take s (drop (m * s) u) = take (m * s + s) u"
    by (simp add: take_add)
  with Suc show ?case by (simp add: add.commute)
qed

lemma py_slice_window:
  "py_slice xs (int a) (int a + int c) = take c (drop a xs)"
proof -
  have "clip_index (length xs) (int a) = min (length xs) a"
    by (simp add: clip_index_def)
  moreover have "clip_index (length xs) (int a + int c) = min (length xs) (a + c)"
    by (simp add: clip_index_def nat_add_distrib)
  ultimately show ?thesis
    by (cases "a \<le> length xs") (auto simp: py_slice_def Let_def min_def)
qed

lemma div_small_plus: "r < (s::nat) \<Longrightarrow> (r + q * s) div s = q"
  by simp

lemma nat_ceil_cases:
  assumes "0 < (s::nat)"
  shows "(n + s - 1) div s = (if n mod s = 0 then n div s else n div s + 1)"
proof (cases "n mod s = 0")
  case True
  then have "n = (n div s) * s" by auto
  then have e: "n + s - 1 = (s - 1) + (n div s) * s" using assms by linarith
  have "s - 1 < s" using assms by simp
  from div_small_plus[OF this, of "n div s"] e True show ?thesis by presburger
next
  case False
  have shift: "r + q * s + s - 1 = (r - 1) + (q + 1) * s" if "0 < r" for r q :: nat
    using that by (simp add: algebra_simps)
  have "n = n mod s + (n div s) * s" by simp
  moreover have "0 < n mod s" using False by simp
  ultimately have e: "n + s - 1 = (n mod s - 1) + (n div s + 1) * s"
    using shift[of "n mod s" "n div s"] by presburger
  have "n mod s - 1 < s" using assms
    by (meson less_imp_diff_less mod_less_divisor)
  from div_small_plus[OF this, of "n div s + 1"] e False show ?thesis by presburger
qed

lemma nat_ceil_cover:
  assumes "0 < (s::nat)"
  shows "n \<le> ((n + s - 1) div s) * s"
proof (cases "n mod s = 0")
  case True
  then show ?thesis using nat_ceil_cases[OF assms, of n] by auto
next
  case False
  have "n = n div s * s + n mod s" by simp
  moreover have "n mod s < s" using assms by simp
  ultimately have "n \<le> (n div s + 1) * s" 
    by (metis add_le_cancel_left less_imp_le_nat add_mult_distrib mult_1)
  then show ?thesis using nat_ceil_cases[OF assms, of n] False by simp
qed

lemma ceil_div_nat: 
  assumes "0 < s" shows "ceil_div (int n) (int s) = int ((n + s - 1) div s)"
proof -
  have "(- int n) div int s = (if int n mod int s = 0 then - (int n div int s) else - (int n div int s) - 1)"
    using assms by (simp add: zdiv_zminus1_eq_if)
  moreover have "(int n mod int s = 0) = (n mod s = 0)"
    by (metis of_nat_eq_0_iff zmod_int)
  ultimately show ?thesis
    using nat_ceil_cases[OF assms, of n] by (simp add: ceil_div_def zdiv_int)
qed

lemma chunk_text_long:
  assumes "0 < overlap" "overlap < chunk_size" "chunk_size < int (length T)"
  shows "chunk_text T chunk_size overlap =
     Inr (map (\<lambda>k. take (nat chunk_size) (drop (k * nat (chunk_size - overlap)) T))
        [0..<(length T + nat (chunk_size - overlap) - 1) div nat (chunk_size - overlap)])"
proof -
  have w: "py_slice T (int i) (int i + chunk_size) = take (nat chunk_size) (drop i T)" for i
    using py_slice_window[of T i "nat chunk_size"] assms by simp
  show ?thesis using assms
    by (simp add: chunk_text_def range_from0_def w o_def)
qed

lemma reassemble_windows:
  assumes "0 < s" "s \<le> c" "c < length T" "m = (length T + s - 1) div s"
  shows "reassemble (c - s) (map (\<lambda>k. take c (drop (k * s) T)) [0..<m]) = T"
proof -
  have "0 < m" using assms
    by (metis nat_ceil_cases div_greater_zero_iff add_gr_0 gr_zeroI less_nat_zero_code mod_less zero_less_one nat_less_le not_less)
  then obtain m' where m: "m = Suc m'" by (cases m) auto
  have split: "[0..<Suc m'] = 0 # map Suc [0..<m']"
    by (simp add: upt_conv_Cons map_Suc_upt del: upt_Suc)
  have strip: "drop (c - s) (take c (drop (Suc j * s) T)) = take s (drop (j * s) (drop c T))" for j
  proof -
    have "drop (c - s) (take c (drop (Suc j * s) T)) = take (c - (c - s)) (drop (c - s) (drop (Suc j * s) T))"
      by (simp add: drop_take)
    also have "c - (c - s) = s" using assms by simp
    also have "drop (c - s) (drop (Suc j * s) T) = drop (j * s) (drop c T)"
      using assms by (simp add: algebra_simps)
    finally show ?thesis .
  qed
  have "m * s \<ge> length T" 
    using assms(1,4) nat_ceil_cover[OF assms(1), of "length T"] by simp
  then have cover: "length (drop c T) \<le> m' * s" using m assms by simp
  have rest: "map (drop (c - s)) (map (\<lambda>k. take c (drop (k * s) T)) (map Suc [0..<m']))
        = map (\<lambda>j. take s (drop (j * s) (drop c T))) [0..<m']"
    by (simp only: map_map o_def strip)
  have "reassemble (c - s) (map (\<lambda>k. take c (drop (k * s) T)) [0..<m])
        = take c (drop (0 * s) T) @ concat (map (\<lambda>j. take s (drop (j * s) (drop c T))) [0..<m'])"
    unfolding m split by (simp only: reassemble_def list.case list.map rest)
  also have "\<dots> = take c T @ concat (map (\<lambda>j. take s (drop (j * s) (drop c T))) [0..<m'])"
    by simp
  also have "\<dots> = take c T @ take (m' * s) (drop c T)"
    by (simp only: concat_windows)
  also have "\<dots> = T" using cover by simp
  finally show ?thesis .
qed

text \<open>
  C3 (as amended). For \<open>0 < overlap < chunk_size\<close>: a text no longer than
  \<open>chunk_size\<close> is returned as the single chunk; a longer text is cut into chunks
  whose concatenation, every chunk after the first without its leading \<open>overlap\<close>
  characters, is the text again, and the number of chunks is
  \<open>ceil(len(T) / (chunk_size - overlap))\<close>: one chunk per start offset below
  \<open>len(T)\<close>, not \<open>ceil((len(T) - overlap) / (chunk_size - overlap))\<close>.
\<close>

theorem chunk_text_reconstructs:
  assumes "0 < overlap" "overlap < chunk_size"
  shows "(int (length T) \<le> chunk_size \<longrightarrow> chunk_text T chunk_size overlap = Inr [T]) \<and>
         (chunk_size < int (length T) \<longrightarrow>
            (\<exists>cs. chunk_text T chunk_size overlap = Inr cs \<and>
                  reassemble (nat overlap) cs = T \<and>
                  int (length cs) = code_chunk_count (length T) chunk_size overlap))"
proof (intro conjI impI)
  assume "int (length T) \<le> chunk_size"
  then show "chunk_text T chunk_size overlap = Inr [T]"
    by (simp add: chunk_text_def)
next
  assume long: "chunk_size < int (length T)"
  define s where "s = nat (chunk_size - overlap)"
  define c where "c = nat chunk_size"
  define m where "m = (length T + s - 1) div s"
  define cs where "cs = map (\<lambda>k. take c (drop (k * s) T)) [0..<m]"
  have s: "0 < s" "s \<le> c" "c < length T" and ov: "nat overlap = c - s"
    using assms long by (auto simp: s_def c_def)
  have "chunk_text T chunk_size overlap = Inr cs"
    using chunk_text_long[OF assms long] by (simp add: cs_def m_def s_def c_def)
  moreover have "reassemble (nat overlap) cs = T"
    unfolding ov cs_def using reassemble_windows[OF s m_def] .
  moreover have "int (length cs) = code_chunk_count (length T) chunk_size overlap"
  proof -
    have "chunk_size - overlap = int s" using assms by (simp add: s_def)
    then show ?thesis
      using ceil_div_nat[OF s(1), of "length T"]
      by (simp add: cs_def m_def code_chunk_count_def)
  qed
  ultimately show "\<exists>cs. chunk_text T chunk_size overlap = Inr cs \<and>
      reassemble (nat overlap) cs = T \<and>
      int (length cs) = code_chunk_count (length T) chunk_size overlap"
    by blast
qed

theorem chunk_text_reconstructs_witness:
  "(0::int) < 2 \<and> (2::int) < 6 \<and> (6::int) < int (length ''abcdefghij'') \<and>
   (\<exists>cs. chunk_text ''abcdefghij'' 6 2 = Inr cs \<and> reassemble (nat 2) cs = ''abcdefghij'' \<and>
         int (length cs) = code_chunk_count (length ''abcdefghij'') 6 2)"
  using chunk_text_reconstructs [of 2 6 "''abcdefghij''"] by simp

theorem chunk_text_count_counterexample:
  "chunk_text ''abcdefghij'' 6 2 = Inr [''abcdef'', ''efghij'', ''ij''] \<and>
   spec_chunk_count (length ''abcdefghij'') 6 2 = 2"
  by code_simp

text \<open>
  C4 (as amended). For a text longer than \<open>chunk_size\<close> and
  \<open>overlap \<ge> chunk_size\<close> the chunker does not clamp the overlap: it raises
  \<open>ValueError\<close> (the step of the range is zero) when \<open>overlap = chunk_size\<close>, and
  returns the empty chunk sequence when \<open>overlap > chunk_size\<close>.
\<close>

theorem chunk_text_overlap_not_clamped:
  assumes "chunk_size < int (length T)" "chunk_size \<le> overlap"
  shows "chunk_text T chunk_size overlap =
     (if overlap = chunk_size then Inl (ValueError ''range() arg 3 must not be zero'')
      else Inr [])"
  using assms by (simp add: chunk_text_def range_from0_def)

theorem chunk_text_overlap_not_clamped_witness:
  "(3::int) < int (length ''abcdef'') \<and> (3::int) \<le> 5 \<and> chunk_text ''abcdef'' 3 5 = Inr []"
  using chunk_text_overlap_not_clamped [of 3 "''abcdef''" 5] by simp

theorem chunk_text_overlap_counterexample:
  "chunk_text ''abcdef'' 3 3 = Inl (ValueError ''range() arg 3 must not be zero'') \<and>
   chunk_text ''abcdef'' 3 5 = Inr []"
  by (simp add: chunk_text_def range_from0_def)

section \<open>Merging: results\<close>

lemma merge_node_keys: "fst ` set (merged_nodes (merge_node n st)) = insert (node_id n) (fst ` set (merged_nodes st))"
  by (auto simp: merge_node_def map_of_eq_None_iff)

lemma merge_node_edges [simp]: "edge_set (merge_node n st) = edge_set st"
  by (simp add: merge_node_def)

lemma merge_rel_keys [simp]: "merged_nodes (merge_rel r st) = merged_nodes st"
  by (simp add: merge_rel_def)

lemma merge_rel_edges: "edge_set (merge_rel r st) = insert (edge_tuple r) (edge_set st)"
  by (auto simp: merge_rel_def)

lemma fold_merge_node_keys:
  "fst ` set (merged_nodes (fold merge_node ns st)) = node_id ` set ns \<union> fst ` set (merged_nodes st)"
  by (induction ns arbitrary: st) (auto simp: merge_node_keys)

lemma fold_merge_node_edges [simp]: "edge_set (fold merge_node ns st) = edge_set st"
  by (induction ns arbitrary: st) auto

lemma fold_merge_rel_keys [simp]: "merged_nodes (fold merge_rel rs st) = merged_nodes st"
  by (induction rs arbitrary: st) auto

lemma fold_merge_rel_edges:
  "edge_set (fold merge_rel rs st) = edge_tuple ` set rs \<union> edge_set st"
  by (induction rs arbitrary: st) (auto simp: merge_rel_edges)

lemma merge_graph_keys:
  "fst ` set (merged_nodes (merge_graph g st)) = node_id ` set (nodes g) \<union> fst ` set (merged_nodes st)"
  by (simp add: merge_graph_def fold_merge_node_keys)

lemma merge_graph_edges:
  "edge_set (merge_graph g st) = edge_tuple ` set (relationships g) \<union> edge_set st"
  by (simp add: merge_graph_def fold_merge_rel_edges)

lemma fold_merge_node_absorbed:
  "node_id ` set ns \<subseteq> fst ` set (merged_nodes st) \<Longrightarrow> fold merge_node ns st = st"
  by (induction ns arbitrary: st) (auto simp: merge_node_def map_of_eq_None_iff)

lemma fold_merge_rel_absorbed:
  "edge_tuple ` set rs \<subseteq> edge_set st \<Longrightarrow> fold merge_rel rs st = st"
  by (induction rs arbitrary: st) (auto simp: merge_rel_def)

lemma merge_graph_absorbed: "absorbed g st \<Longrightarrow> merge_graph g st = st"
  by (simp add: absorbed_def merge_graph_def fold_merge_node_absorbed fold_merge_rel_absorbed)

lemma absorbed_merge_graph_self: "absorbed g (merge_graph g st)"
  by (simp add: absorbed_def merge_graph_keys merge_graph_edges)

lemma absorbed_mono: "absorbed g st \<Longrightarrow> absorbed g (merge_graph h st)"
  by (auto simp: absorbed_def merge_graph_keys merge_graph_edges)

lemma absorbed_fold: "absorbed g st \<Longrightarrow> absorbed g (fold merge_graph hs st)"
  by (induction hs arbitrary: st) (auto simp: absorbed_mono)

lemma absorbed_after_fold: "g \<in> set gs \<Longrightarrow> absorbed g (fold merge_graph gs st)"
  by (induction gs arbitrary: st) (auto simp: absorbed_fold absorbed_merge_graph_self)

lemma fold_merge_graph_absorbed:
  "(\<And>g. g \<in> set gs \<Longrightarrow> absorbed g st) \<Longrightarrow> fold merge_graph gs st = st"
  by (induction gs arbitrary: st) (auto simp: merge_graph_absorbed)

text \<open>
  C8. Merging a list of chunk graphs followed by the same list again gives the same
  document graph as merging the list once: in the second pass every node id is
  already a key and every edge triple is already in the edge set.
\<close>

theorem merge_graphs_twice: "merge_graphs (graphs @ graphs) = merge_graphs graphs"
proof -
  let ?st = "fold merge_graph graphs \<lparr>merged_nodes = [], edge_set = {}, merged_rels = []\<rparr>"
  have "fold merge_graph graphs ?st = ?st"
    by (rule fold_merge_graph_absorbed) (rule absorbed_after_fold)
  then show ?thesis by (simp add: merge_graphs_def)
qed

lemma successes_empty_iff: "[g. Graph g \<leftarrow> results] = [] \<longleftrightarrow> \<not> list_ex is_graph results"
proof (induction results)
  case Nil
  then show ?case by simp
next
  case (Cons r results)
  then show ?case by (cases r) simp_all
qed

text \<open>
  C6 (as amended). The pipeline raises if and only if every chunk's extraction
  failed, that is, no result of the gather is a graph. The error is a
  \<open>RuntimeError\<close> with a fixed message and does not carry the underlying errors: the
  texts of the results that are instances of \<open>Exception\<close> are printed, and a
  cancelled chunk is not even printed. If at least one chunk succeeded, the result is
  the merged graph of the successful chunks and nothing is printed.
\<close>

theorem merge_results_outcome:
  "(isl (snd (merge_results results)) \<longleftrightarrow> \<not> list_ex is_graph results) \<and>
   (\<not> list_ex is_graph results \<longrightarrow>
      merge_results results =
        ([AllChunksFailed [e. Raised e \<leftarrow> results]], Inl (RuntimeError no_graph_message))) \<and>
   (list_ex is_graph results \<longrightarrow>
      merge_results results = ([], Inr (merge_graphs [g. Graph g \<leftarrow> results])))"
proof (cases "list_ex is_graph results")
  case True
  then have "[g. Graph g \<leftarrow> results] \<noteq> []" using successes_empty_iff by blast
  then show ?thesis using True
    by (simp add: merge_results_def Let_def del: concat_eq_Nil_conv)
next
  case False
  then have "[g. Graph g \<leftarrow> results] = []" using successes_empty_iff by blast
  then show ?thesis using False
    by (simp add: merge_results_def del: concat_eq_Nil_conv)
qed

theorem merge_results_outcome_witness:
  "list_ex is_graph [Raised ''timeout'', Graph example_chunk_graph] \<and>
   merge_results [Raised ''timeout'', Graph example_chunk_graph] =
     ([], Inr (merge_graphs [example_chunk_graph])) \<and>
   \<not> list_ex is_graph [Raised ''timeout'', Cancelled [], Raised ''bad JSON''] \<and>
   merge_results [Raised ''timeout'', Cancelled [], Raised ''bad JSON''] =
     ([AllChunksFailed [''timeout'', ''bad JSON'']], Inl (RuntimeError no_graph_message))"
  using merge_results_outcome [of "[Raised ''timeout'', Graph example_chunk_graph]"]
    merge_results_outcome [of "[Raised ''timeout'', Cancelled [], Raised ''bad JSON'']"]
  by simp

theorem merge_results_error_counterexample:
  "snd (merge_results [Raised ''timeout'']) = Inl (RuntimeError no_graph_message) \<and>
   snd (merge_results [Raised ''malformed JSON'']) = Inl (RuntimeError no_graph_message)"
  by (simp add: merge_results_def)

text \<open>With the default parameters the chunker never raises, so the pipeline is the gather and the merge.\<close>

lemma chunk_text_default_ok: "\<exists>cs. chunk_text text 6000 300 = Inr cs"
  by (auto simp: chunk_text_def range_from0_def)

lemma process_text_in_chunks_merge_results:
  "\<exists>cs. chunk_text text 6000 300 = Inr cs \<and>
        process_text_in_chunks extract text = merge_results (map extract cs)"
  using chunk_text_default_ok [of "text"] by (auto simp: process_text_in_chunks_def)

section \<open>Path discovery: results\<close>

lemma walk_snoc:
  "walk adj p \<Longrightarrow> p \<noteq> [] \<Longrightarrow> nb \<in> set (adj_get adj (last p)) \<Longrightarrow> walk adj (p @ [nb])"
  by (induction adj p rule: walk.induct) auto

lemma adj_get_keys: "adj_get adj cur \<noteq> [] \<Longrightarrow> cur \<in> fst ` set adj"
  by (auto simp: adj_get_def split: option.splits dest!: map_of_SomeD intro: rev_image_eqI)

lemma entry_ok_mono: "entry_ok adj s visited e \<Longrightarrow> visited \<subseteq> visited' \<Longrightarrow> entry_ok adj s visited' e"
  by (auto simp: entry_ok_def)

lemma entry_ok_extend:
  assumes "entry_ok adj s visited (cur, path)" "nb \<in> set (adj_get adj cur)" "nb \<notin> visited"
  shows "entry_ok adj s (insert nb visited) (nb, path @ [nb])"
proof -
  from assms(1) have p: "path \<noteq> []" "hd path = s" "last path = cur" "distinct path"
    "walk adj path" "set path \<subseteq> visited" "set (butlast path) \<subseteq> fst ` set adj"
    by (auto simp: entry_ok_def simple_path_def)
  have "adj_get adj cur \<noteq> []" using assms(2) by auto
  then have "cur \<in> fst ` set adj" by (rule adj_get_keys)
  moreover have "set path = insert (last path) (set (butlast path))"
    using p(1) by (metis append_butlast_last_id list.simps(15) rotate1.simps(2) set_rotate1)
  ultimately have "set path \<subseteq> fst ` set adj" using p by auto
  moreover have "walk adj (path @ [nb])" using walk_snoc p assms(2) by auto
  moreover have "nb \<notin> set path" using p assms(3) by auto
  ultimately show ?thesis using p by (auto simp: entry_ok_def simple_path_def)
qed

lemma fold_enqueue_entries:
  assumes "entry_ok adj s (fst st) (cur, path)" "set nbs \<subseteq> set (adj_get adj cur)"
    "\<forall>e\<in>set (snd st). entry_ok adj s (fst st) e"
  shows "\<forall>e\<in>set (snd (fold (enqueue_neighbour path) nbs st)).
           entry_ok adj s (fst (fold (enqueue_neighbour path) nbs st)) e"
  using assms
proof (induction nbs arbitrary: st)
  case Nil
  then show ?case by simp
next
  case (Cons nb nbs)
  let ?st' = "enqueue_neighbour path nb st"
  have sub: "fst st \<subseteq> fst ?st'" by (auto simp: enqueue_neighbour_def)
  have a: "entry_ok adj s (fst ?st') (cur, path)"
    using Cons.prems(1) sub entry_ok_mono by blast
  have b: "\<forall>e\<in>set (snd ?st'). entry_ok adj s (fst ?st') e"
  proof (cases "nb \<in> fst st")
    case True
    then show ?thesis using Cons.prems(3) by (simp add: enqueue_neighbour_def)
  next
    case False
    have "entry_ok adj s (insert nb (fst st)) (nb, path @ [nb])"
      using entry_ok_extend[OF Cons.prems(1) _ False] Cons.prems(2) by auto
    moreover have "\<forall>e\<in>set (snd st). entry_ok adj s (insert nb (fst st)) e"
      using Cons.prems(3) entry_ok_mono by blast
    ultimately show ?thesis using False by (auto simp: enqueue_neighbour_def)
  qed
  show ?case using Cons.IH[OF a _ b] Cons.prems(2) by simp
qed

lemma bfs_sound:
  "\<forall>e\<in>set q. entry_ok adj s visited e \<Longrightarrow> p \<in> set (bfs adj t max_hops q visited all_paths) \<Longrightarrow>
     p \<in> set all_paths \<or> found_ok adj s t max_hops p"
proof (induction adj t max_hops q visited all_paths rule: bfs.induct)
  case (1 adj t max_hops visited all_paths)
  then show ?case by simp
next
  case (2 adj t max_hops cur path q visited all_paths)
  let ?st = "fold (enqueue_neighbour path) (adj_get adj cur) (visited, q)"
  show ?case
  proof (cases "int (length path) > max_hops")
    case True
    then show ?thesis using 2 by simp
  next
    case short: False
    show ?thesis
    proof (cases "cur = t")
      case True
      have "found_ok adj s t max_hops path"
        using "2.prems"(1) short True by (auto simp: entry_ok_def found_ok_def)
      then show ?thesis using 2 short True by auto
    next
      case False
      have "\<forall>e\<in>set (snd ?st). entry_ok adj s (fst ?st) e"
        by (rule fold_enqueue_entries[where cur=cur]) (use "2.prems"(1) in auto)
      then show ?thesis using "2.IH"(3)[OF short False] "2.prems"(2) short False by simp
    qed
  qed
qed

lemma bfs_append:
  "bfs adj t max_hops q visited (xs @ ys) = xs @ bfs adj t max_hops q visited ys"
proof (induction adj t max_hops q visited ys arbitrary: xs rule: bfs.induct)
  case (1 adj t max_hops visited all_paths)
  then show ?case by simp
next
  case (2 adj t max_hops cur path q visited all_paths)
  show ?case
  proof (cases "int (length path) > max_hops")
    case True
    then show ?thesis using "2.IH"(1) by simp
  next
    case short: False
    show ?thesis
    proof (cases "cur = t")
      case True
      then show ?thesis using "2.IH"(2)[OF short True, of xs] short by simp
    next
      case False
      then show ?thesis using "2.IH"(3)[OF short False] short by simp
    qed
  qed
qed

lemma bfs_acc: "bfs adj t max_hops q visited all_paths = all_paths @ bfs adj t max_hops q visited []"
  using bfs_append[of adj t max_hops q visited all_paths "[]"] by simp

lemma pending_enqueue: "pending t (snd (enqueue_neighbour path nb st)) (fst (enqueue_neighbour path nb st)) \<le> pending t (snd st) (fst st)"
  by (auto simp: pending_def enqueue_neighbour_def)

lemma pending_fold:
  "pending t (snd (fold (enqueue_neighbour path) nbs st)) (fst (fold (enqueue_neighbour path) nbs st))
     \<le> pending t (snd st) (fst st)"
proof (induction nbs arbitrary: st)
  case Nil
  then show ?case by simp
next
  case (Cons nb nbs)
  show ?case using Cons.IH[of "enqueue_neighbour path nb st"] pending_enqueue[of t path nb st]
    by simp
qed

lemma bfs_count:
  "length (bfs adj t max_hops q visited all_paths) \<le> length all_paths + pending t q visited"
proof (induction adj t max_hops q visited all_paths rule: bfs.induct)
  case (1 adj t max_hops visited all_paths)
  then show ?case by simp
next
  case (2 adj t max_hops cur path q visited all_paths)
  let ?st = "fold (enqueue_neighbour path) (adj_get adj cur) (visited, q)"
  show ?case
  proof (cases "int (length path) > max_hops")
    case True
    have "pending t q visited \<le> pending t ((cur, path) # q) visited" by (simp add: pending_def)
    then show ?thesis using "2.IH"(1)[OF True] True by simp
  next
    case short: False
    show ?thesis
    proof (cases "cur = t")
      case True
      have "Suc (pending t q visited) = pending t ((cur, path) # q) visited"
        using True by (simp add: pending_def)
      then show ?thesis using "2.IH"(2)[OF short True] short True by simp
    next
      case False
      have "pending t (snd ?st) (fst ?st) \<le> pending t q visited"
        using pending_fold[of t path "adj_get adj cur" "(visited, q)"] by simp
      moreover have "pending t q visited = pending t ((cur, path) # q) visited"
        using False by (simp add: pending_def)
      ultimately show ?thesis using "2.IH"(3)[OF short False] short False by simp
    qed
  qed
qed

lemma search_pair_append:
  "search_pair adj max_hops s t all_paths = all_paths @ search_pair adj max_hops s t []"
  using bfs_acc[of adj t max_hops "[(s, [s])]" "{s}" all_paths] by (simp add: search_pair_def)

lemma search_pair_count: "length (search_pair adj max_hops s t []) \<le> 1"
  using bfs_count[of adj t max_hops "[(s, [s])]" "{s}" "[]"]
  by (auto simp: search_pair_def pending_def)

lemma search_pair_sound:
  assumes "p \<in> set (search_pair adj max_hops s t [])"
  shows "s \<noteq> t \<and> found_ok adj s t max_hops p"
proof -
  have st: "s \<noteq> t" using assms by (auto simp: search_pair_def split: if_splits)
  have "\<forall>e\<in>set [(s, [s])]. entry_ok adj s {s} e"
    by (simp add: entry_ok_def simple_path_def)
  from bfs_sound[OF this, of p t max_hops "[]"] assms st show ?thesis
    by (simp add: search_pair_def)
qed

lemma fold_targets:
  "fold (\<lambda>t all_paths. search_pair adj max_hops s t all_paths) targets all_paths =
     all_paths @ concat (map (\<lambda>t. search_pair adj max_hops s t []) targets)"
proof (induction targets arbitrary: all_paths)
  case Nil
  then show ?case by simp
next
  case (Cons t targets)
  show ?case using search_pair_append[of adj max_hops s t all_paths] by (simp add: Cons.IH)
qed

lemma fold_append_concat: "fold (\<lambda>x acc. acc @ f x) xs acc = acc @ concat (map f xs)"
  by (induction xs arbitrary: acc) auto

lemma pooled_paths_concat:
  "pooled_paths adj max_hops sources targets =
     concat (map (\<lambda>s. concat (map (\<lambda>t. search_pair adj max_hops s t []) targets)) sources)"
  by (simp add: pooled_paths_def fold_targets fold_append_concat)

lemma walk_nth: "walk adj w \<Longrightarrow> Suc i < length w \<Longrightarrow> w ! Suc i \<in> set (adj_get adj (w ! i))"
proof (induction adj w arbitrary: i rule: walk.induct)
  case (1 adj x y rest)
  then show ?case by (cases i) auto
qed auto

lemma fold_enqueue_queue:
  "\<exists>news. set news = set nbs - fst st \<and>
      snd (fold (enqueue_neighbour path) nbs st) = snd st @ map (\<lambda>nb. (nb, path @ [nb])) news"
proof (induction nbs arbitrary: st)
  case Nil
  then show ?case by simp
next
  case (Cons nb nbs)
  let ?st' = "enqueue_neighbour path nb st"
  from Cons.IH[of ?st'] obtain news where
    n: "set news = set nbs - fst ?st'"
       "snd (fold (enqueue_neighbour path) nbs ?st') = snd ?st' @ map (\<lambda>nb. (nb, path @ [nb])) news"
    by blast
  show ?case
  proof (cases "nb \<in> fst st")
    case True
    then have "?st' = st" by (simp add: enqueue_neighbour_def)
    with n True show ?thesis by (intro exI[of _ news]) auto
  next
    case False
    then have "fst ?st' = insert nb (fst st)" "snd ?st' = snd st @ [(nb, path @ [nb])]"
      by (simp_all add: enqueue_neighbour_def)
    with n False show ?thesis by (intro exI[of _ "nb # news"]) auto
  qed
qed

lemma front_sorted_head_min:
  "front_sorted ((cur, path) # q) \<Longrightarrow> e \<in> set ((cur, path) # q) \<Longrightarrow> length path \<le> length (snd e)"
  by (auto simp: front_sorted_def)

lemma front_sorted_tail: "front_sorted (e # q) \<Longrightarrow> front_sorted q"
proof (cases q)
  case Nil
  then show ?thesis by (simp add: front_sorted_def)
next
  case (Cons e' q')
  assume "front_sorted (e # q)"
  then show ?thesis using Cons by (auto simp: front_sorted_def)
qed

lemma sorted_le_last: "sorted (xs :: nat list) \<Longrightarrow> x \<in> set xs \<Longrightarrow> x \<le> last xs"
  by (induction xs) auto

lemma sorted_map_const: "sorted (map (\<lambda>x. (c::nat)) xs)"
  by (induction xs) auto

lemma front_sorted_bound:
  assumes fs: "front_sorted ((cur, path) # q)" and e: "e \<in> set q"
  shows "length (snd e) \<le> Suc (length path)"
proof -
  have ne: "q \<noteq> []" using e by auto
  have "sorted (map (\<lambda>e. length (snd e)) q)" using fs by (simp add: front_sorted_def)
  moreover have "length (snd e) \<in> set (map (\<lambda>e. length (snd e)) q)" using e by auto
  ultimately have "length (snd e) \<le> last (map (\<lambda>e. length (snd e)) q)"
    by (rule sorted_le_last)
  then have "length (snd e) \<le> length (snd (last q))" using ne by (simp add: last_map)
  moreover have "length (snd (last q)) \<le> Suc (length path)"
    using fs ne by (simp add: front_sorted_def)
  ultimately show ?thesis by simp
qed

lemma front_sorted_expand:
  assumes "front_sorted ((cur, path) # q)"
  shows "front_sorted (q @ map (\<lambda>nb. (nb, path @ [nb])) news)"
proof -
  let ?new = "map (\<lambda>nb. (nb, path @ [nb])) news"
  have q: "front_sorted q" using assms by (rule front_sorted_tail)
  have le: "length path \<le> length (snd e) \<and> length (snd e) \<le> Suc (length path)"
    if "e \<in> set q" for e
    using front_sorted_bound[OF assms that] front_sorted_head_min[OF assms, of e] that by simp
  have "sorted (map (\<lambda>e. length (snd e)) (q @ ?new))"
    using q le by (auto simp: front_sorted_def sorted_append o_def sorted_map_const)
  moreover have "q @ ?new \<noteq> [] \<longrightarrow>
      length (snd (last (q @ ?new))) \<le> Suc (length (snd (hd (q @ ?new))))"
  proof
    assume ne: "q @ ?new \<noteq> []"
    have all: "\<forall>e\<in>set (q @ ?new). length path \<le> length (snd e) \<and> length (snd e) \<le> Suc (length path)"
      using le by auto
    have l: "last (q @ ?new) \<in> set (q @ ?new)" using ne by (rule last_in_set)
    have h: "hd (q @ ?new) \<in> set (q @ ?new)" using ne by (rule hd_in_set)
    from all l have "length (snd (last (q @ ?new))) \<le> Suc (length path)" by blast
    moreover from all h have "length path \<le> length (snd (hd (q @ ?new)))" by blast
    ultimately show "length (snd (last (q @ ?new))) \<le> Suc (length (snd (hd (q @ ?new))))"
      by linarith
  qed
  ultimately show ?thesis by (simp only: front_sorted_def) 
qed

lemma progress_expand:
  assumes w: "walk adj w" "last w = t" "w \<noteq> []"
    and fs: "front_sorted ((cur, path) # q)"
    and pr: "progress w ((cur, path) # q) visited"
    and nt: "cur \<noteq> t"
    and news: "set news = set (adj_get adj cur) - visited"
  shows "progress w (q @ map (\<lambda>nb. (nb, path @ [nb])) news) (visited \<union> set (adj_get adj cur))"
proof -
  let ?q' = "q @ map (\<lambda>nb. (nb, path @ [nb])) news"
  let ?vis' = "visited \<union> set (adj_get adj cur)"
  from pr obtain i p where ip: "i < length w" "(w ! i, p) \<in> set ((cur, path) # q)"
    "length p \<le> Suc i" "\<forall>j. i < j \<and> j < length w \<longrightarrow> w ! j \<notin> visited"
    unfolding progress_def by blast
  have pl: "length path \<le> length p"
    using front_sorted_head_min[OF fs ip(2)] by simp
  define J where "J = {j. i < j \<and> j < length w \<and> w ! j \<in> ?vis'}"
  have finJ: "finite J" by (simp add: J_def)
  show ?thesis
  proof (cases "J = {}")
    case True
    have "(w ! i, p) \<noteq> (cur, path)"
    proof
      assume eq: "(w ! i, p) = (cur, path)"
      then have "w ! i \<noteq> last w" using nt w(2) by simp
      then have "i \<noteq> length w - 1" using w(3) by (auto simp: last_conv_nth)
      then have si: "Suc i < length w" using ip(1) by simp
      then have "w ! Suc i \<in> set (adj_get adj cur)" using walk_nth[OF w(1) si] eq by simp
      then have "Suc i \<in> J" using si by (simp add: J_def)
      then show False using True by simp
    qed
    then have "(w ! i, p) \<in> set ?q'" using ip(2) by auto
    moreover have "\<forall>j. i < j \<and> j < length w \<longrightarrow> w ! j \<notin> ?vis'"
      using True by (auto simp: J_def)
    ultimately show ?thesis unfolding progress_def using ip(1,3) by blast
  next
    case False
    define m where "m = Max J"
    have mJ: "m \<in> J" unfolding m_def using finJ False by (rule Max_in)
    then have m: "i < m" "m < length w" "w ! m \<in> ?vis'" by (auto simp: J_def)
    have "w ! m \<notin> visited" using ip(4) m by simp
    then have "w ! m \<in> set news" using m(3) news by simp
    then have "(w ! m, path @ [w ! m]) \<in> set ?q'" by auto
    moreover have "length (path @ [w ! m]) \<le> Suc m" using pl ip(3) m(1) by simp
    moreover have "\<forall>j. m < j \<and> j < length w \<longrightarrow> w ! j \<notin> ?vis'"
    proof (intro allI impI)
      fix j assume j: "m < j \<and> j < length w"
      show "w ! j \<notin> ?vis'"
      proof
        assume "w ! j \<in> ?vis'"
        then have "j \<in> J" using j m(1) by (simp add: J_def)
        then have "j \<le> m" unfolding m_def using finJ by simp
        then show False using j by simp
      qed
    qed
    ultimately show ?thesis unfolding progress_def using m(2) by blast
  qed
qed

lemma bfs_complete:
  "walk adj w \<Longrightarrow> last w = t \<Longrightarrow> w \<noteq> [] \<Longrightarrow> int (length w) \<le> max_hops \<Longrightarrow>
   front_sorted q \<Longrightarrow>
   (\<exists>p\<in>set all_paths. length p \<le> length w) \<or> progress w q visited \<Longrightarrow>
   \<exists>p\<in>set (bfs adj t max_hops q visited all_paths). length p \<le> length w"
proof (induction adj t max_hops q visited all_paths rule: bfs.induct)
  case (1 adj t max_hops visited all_paths)
  then show ?case by (simp add: progress_def)
next
  case (2 adj t max_hops cur path q visited all_paths)
  note w = "2.prems"(1,2,3) and bound = "2.prems"(4) and fs = "2.prems"(5)
  have fsq: "front_sorted q" using fs by (rule front_sorted_tail)
  let ?nbs = "adj_get adj cur"
  let ?st = "fold (enqueue_neighbour path) ?nbs (visited, q)"
  obtain news where news: "set news = set ?nbs - visited"
    "snd ?st = q @ map (\<lambda>nb. (nb, path @ [nb])) news"
    using fold_enqueue_queue[of ?nbs "(visited, q)" path] by auto
  have vis': "fst ?st = visited \<union> set ?nbs" by (simp add: fold_enqueue_visited)
  have fs': "front_sorted (snd ?st)" unfolding news(2) using fs by (rule front_sorted_expand)
  show ?case
  proof (cases "\<exists>p\<in>set all_paths. length p \<le> length w")
    case True
    show ?thesis
    proof (cases "int (length path) > max_hops")
      case long: True
      show ?thesis using "2.IH"(1)[OF long w bound fsq] True long by simp
    next
      case short: False
      show ?thesis
      proof (cases "cur = t")
        case ct: True
        have "\<exists>p\<in>set (all_paths @ [path]). length p \<le> length w" using True by auto
        then show ?thesis using "2.IH"(2)[OF short ct w bound fsq] short ct by simp
      next
        case ct: False
        show ?thesis using "2.IH"(3)[OF short ct w bound fs'] True short ct by simp
      qed
    qed
  next
    case False
    then have pr: "progress w ((cur, path) # q) visited" using "2.prems"(6) by blast
    then obtain i p where ip: "i < length w" "(w ! i, p) \<in> set ((cur, path) # q)"
      "length p \<le> Suc i" "\<forall>j. i < j \<and> j < length w \<longrightarrow> w ! j \<notin> visited"
      unfolding progress_def by blast
    have pl: "length path \<le> length p"
      using front_sorted_head_min[OF fs ip(2)] by simp
    then have pw: "length path \<le> length w" using ip(1,3) by simp
    show ?thesis
    proof (cases "int (length path) > max_hops")
      case long: True
      then show ?thesis using pw bound by simp
    next
      case short: False
      show ?thesis
      proof (cases "cur = t")
        case ct: True
        have "\<exists>p\<in>set (all_paths @ [path]). length p \<le> length w" using pw by auto
        then show ?thesis using "2.IH"(2)[OF short ct w bound fsq] short ct by simp
      next
        case ct: False
        have "progress w (snd ?st) (fst ?st)"
          unfolding news(2) vis' by (rule progress_expand[OF w fs pr ct news(1)])
        then show ?thesis using "2.IH"(3)[OF short ct w bound fs'] short ct by simp
      qed
    qed
  qed
qed

lemma last_occurrence:
  assumes "w \<noteq> []"
  shows "\<exists>i. i < length w \<and> w ! i = hd w \<and> (\<forall>j. i < j \<and> j < length w \<longrightarrow> w ! j \<noteq> hd w)"
proof -
  define I where "I = {i. i < length w \<and> w ! i = hd w}"
  have "0 \<in> I" using assms by (simp add: I_def hd_conv_nth)
  then have ne: "I \<noteq> {}" by auto
  have fin: "finite I" by (simp add: I_def)
  have mI: "Max I \<in> I" using fin ne by (rule Max_in)
  have "\<forall>j. Max I < j \<and> j < length w \<longrightarrow> w ! j \<noteq> hd w"
  proof (intro allI impI notI)
    fix j assume j: "Max I < j \<and> j < length w" and "w ! j = hd w"
    then have "j \<in> I" by (simp add: I_def)
    then have "j \<le> Max I" using fin by simp
    then show False using j by simp
  qed
  moreover have "Max I < length w" "w ! Max I = hd w" using mI by (simp_all add: I_def)
  ultimately show ?thesis by blast
qed

lemma search_pair_complete:
  assumes "walk adj w" "w \<noteq> []" "hd w = s" "last w = t" "s \<noteq> t" "int (length w) \<le> max_hops"
  shows "\<exists>p. search_pair adj max_hops s t [] = [p] \<and> length p \<le> length w"
proof -
  obtain i where i: "i < length w" "w ! i = s" "\<forall>j. i < j \<and> j < length w \<longrightarrow> w ! j \<noteq> s"
    using last_occurrence[OF assms(2)] assms(3) by auto
  have "(w ! i, [s]) \<in> set [(s, [s])]" "length [s] \<le> Suc i"
    "\<forall>j. i < j \<and> j < length w \<longrightarrow> w ! j \<notin> {s}"
    using i by simp_all
  then have "progress w [(s, [s])] {s}"
    unfolding progress_def using i(1) by blast
  moreover have "front_sorted [(s, [s])]" by (simp add: front_sorted_def)
  ultimately have "\<exists>p\<in>set (bfs adj t max_hops [(s, [s])] {s} []). length p \<le> length w"
    using bfs_complete[OF assms(1) assms(4) assms(2) assms(6)] by blast
  then obtain p where p: "p \<in> set (search_pair adj max_hops s t [])" "length p \<le> length w"
    using assms(5) by (auto simp: search_pair_def)
  have "length (search_pair adj max_hops s t []) \<le> 1" by (rule search_pair_count)
  then have "search_pair adj max_hops s t [] = [p]" using p(1)
    by (cases "search_pair adj max_hops s t []") auto
  then show ?thesis using p(2) by blast
qed

lemma append_at_keys: "fst ` set (append_at k v adj) = fst ` set adj"
  by (induction k v adj rule: append_at.induct) auto

lemma fold_dict_keys:
  "set (fold (\<lambda>k seen. if k \<in> set seen then seen else seen @ [k]) ks seen) = set ks \<union> set seen"
  by (induction ks arbitrary: seen) auto

lemma set_dict_keys: "set (dict_keys ks) = set ks"
  by (simp add: dict_keys_def fold_dict_keys)

lemma fold_append_at_keys:
  "fst ` set (fold (\<lambda>r adj. append_at (rel_target r) (rel_source r)
                     (append_at (rel_source r) (rel_target r) adj)) rs adj) = fst ` set adj"
  by (induction rs arbitrary: adj) (auto simp: append_at_keys)

lemma build_adjacency_keys: "fst ` set (build_adjacency graph) = node_id ` set (nodes graph)"
  by (simp add: build_adjacency_def fold_append_at_keys set_dict_keys image_image)

lemma candidates_declared: "set (candidates keywords graph) \<subseteq> node_id ` set (nodes graph)"
  by (auto simp: candidates_def node_lower_def set_dict_keys)

lemma found_ok_keys:
  assumes "found_ok adj s t max_hops p" "t \<in> fst ` set adj"
  shows "set p \<subseteq> fst ` set adj"
proof (cases p rule: rev_cases)
  case Nil
  then show ?thesis by simp
next
  case (snoc ys y)
  then show ?thesis using assms by (simp add: found_ok_def simple_path_def)
qed

lemma pooled_paths_declared:
  assumes "set targets \<subseteq> fst ` set adj" "p \<in> set (pooled_paths adj max_hops sources targets)"
  shows "set p \<subseteq> fst ` set adj"
proof -
  from assms(2) have "p \<in> set (concat (map (\<lambda>s. concat (map (\<lambda>t. search_pair adj max_hops s t []) targets)) sources))"
    by (simp only: pooled_paths_concat)
  then obtain s where "p \<in> set (concat (map (\<lambda>t. search_pair adj max_hops s t []) targets))"
    by auto
  then obtain t where st: "t \<in> set targets" "p \<in> set (search_pair adj max_hops s t [])"
    by auto
  from search_pair_sound[OF st(2)] have "found_ok adj s t max_hops p" by simp
  moreover have "t \<in> fst ` set adj" using st(1) assms(1) by blast
  ultimately show ?thesis by (rule found_ok_keys)
qed

lemma set_py_slice: "set (py_slice xs i j) \<subseteq> set xs"
proof -
  have "set (take n (drop a xs)) \<subseteq> set xs" for n a
    using set_take_subset[of n "drop a xs"] set_drop_subset[of a xs] by blast
  then show ?thesis by (simp add: py_slice_def Let_def)
qed

lemma path_discovery_pooled:
  "set (path_discovery graph max_hops top_k) \<subseteq>
     set (pooled_paths (build_adjacency graph) max_hops
            (candidates source_keywords graph) (candidates outcome_keywords graph))"
proof -
  let ?pool = "pooled_paths (build_adjacency graph) max_hops
            (candidates source_keywords graph) (candidates outcome_keywords graph)"
  have "path_discovery graph max_hops top_k = [] \<or>
        path_discovery graph max_hops top_k = py_slice (sort_key length ?pool) 0 top_k"
    by (simp add: path_discovery_def Let_def)
  moreover have "set (py_slice (sort_key length ?pool) 0 top_k) \<subseteq> set ?pool"
    using set_py_slice[of "sort_key length ?pool" 0 top_k] by simp
  ultimately show ?thesis by auto
qed

text \<open>
  C10. Every id in every path that \<open>path_discovery\<close> returns is the id of a declared
  node. An undeclared id can be a listed neighbour and can be queued, but it has no
  adjacency entry and is never the outcome, so no path through it is returned.
\<close>

theorem path_discovery_declared_ids:
  "\<forall>p\<in>set (path_discovery graph max_hops top_k). set p \<subseteq> node_id ` set (nodes graph)"
proof
  fix p assume "p \<in> set (path_discovery graph max_hops top_k)"
  then have "p \<in> set (pooled_paths (build_adjacency graph) max_hops
            (candidates source_keywords graph) (candidates outcome_keywords graph))"
    using path_discovery_pooled by blast
  moreover have "set (candidates outcome_keywords graph) \<subseteq> fst ` set (build_adjacency graph)"
    by (simp add: build_adjacency_keys candidates_declared)
  ultimately have "set p \<subseteq> fst ` set (build_adjacency graph)"
    using pooled_paths_declared by blast
  then show "set p \<subseteq> node_id ` set (nodes graph)" by (simp add: build_adjacency_keys)
qed

theorem path_discovery_declared_ids_witness:
  "path_discovery dangling_graph 4 5 = [[''Metal ion'', ''Etch step'', ''Yield loss'']] \<and>
   ''Ghost'' \<in> set (adj_get (build_adjacency dangling_graph) ''Metal ion'') \<and>
   set [''Metal ion'', ''Etch step'', ''Yield loss''] \<subseteq> node_id ` set (nodes dangling_graph)"
proof -
  have a: "path_discovery dangling_graph 4 5 = [[''Metal ion'', ''Etch step'', ''Yield loss'']]"
    by code_simp
  have b: "''Ghost'' \<in> set (adj_get (build_adjacency dangling_graph) ''Metal ion'')"
    by code_simp
  from path_discovery_declared_ids[of dangling_graph 4 5] a b show ?thesis by simp
qed

text \<open>
  C2 (as amended). The pool is the concatenation, in loop order, of what each
  (source, outcome) search contributes. One search contributes at most one path,
  since its visited set is shared by all branches: every contributed path is a simple
  path from the source to the outcome with at most \<open>max_hops\<close> edges, and whenever
  the outcome is reachable from a different source by a walk of fewer than
  \<open>max_hops\<close> edges, exactly one path is contributed, no longer than that walk.
\<close>

theorem pooled_paths_one_per_pair:
  "pooled_paths (build_adjacency graph) max_hops sources targets =
     concat (map (\<lambda>s. concat (map (\<lambda>t. search_pair (build_adjacency graph) max_hops s t []) targets)) sources) \<and>
   (\<forall>s t. length (search_pair (build_adjacency graph) max_hops s t []) \<le> 1 \<and>
      (\<forall>p\<in>set (search_pair (build_adjacency graph) max_hops s t []).
          s \<noteq> t \<and> simple_path (build_adjacency graph) s t p \<and> int (length p) - 1 \<le> max_hops) \<and>
      (\<forall>w. s \<noteq> t \<and> w \<noteq> [] \<and> hd w = s \<and> last w = t \<and> walk (build_adjacency graph) w \<and>
            int (length w) - 1 < max_hops \<longrightarrow>
          (\<exists>p. search_pair (build_adjacency graph) max_hops s t [] = [p] \<and> length p \<le> length w)))"
proof (intro conjI allI ballI impI)
  show "pooled_paths (build_adjacency graph) max_hops sources targets =
     concat (map (\<lambda>s. concat (map (\<lambda>t. search_pair (build_adjacency graph) max_hops s t []) targets)) sources)"
    by (rule pooled_paths_concat)
next
  fix s t
  show "length (search_pair (build_adjacency graph) max_hops s t []) \<le> 1"
    by (rule search_pair_count)
next
  fix s t p
  assume p: "p \<in> set (search_pair (build_adjacency graph) max_hops s t [])"
  from search_pair_sound[OF p] show "s \<noteq> t" by simp
  from search_pair_sound[OF p] show "simple_path (build_adjacency graph) s t p"
    by (simp add: found_ok_def)
  from search_pair_sound[OF p] show "int (length p) - 1 \<le> max_hops"
    by (simp add: found_ok_def)
next
  fix s t w
  assume "s \<noteq> t \<and> w \<noteq> [] \<and> hd w = s \<and> last w = t \<and> walk (build_adjacency graph) w \<and>
            int (length w) - 1 < max_hops"
  then show "\<exists>p. search_pair (build_adjacency graph) max_hops s t [] = [p] \<and> length p \<le> length w"
    using search_pair_complete[of "build_adjacency graph" w s t max_hops] by simp
qed

theorem pooled_paths_one_per_pair_witness:
  "''Metal'' \<noteq> ''Yield'' \<and>
   walk (build_adjacency diamond_graph) [''Metal'', ''y'', ''Yield''] \<and>
   int (length [''Metal'', ''y'', ''Yield'']) - 1 < 4 \<and>
   search_pair (build_adjacency diamond_graph) 4 ''Metal'' ''Yield'' [] = [[''Metal'', ''x'', ''Yield'']] \<and>
   simple_path (build_adjacency diamond_graph) ''Metal'' ''Yield'' [''Metal'', ''x'', ''Yield''] \<and>
   pooled_paths (build_adjacency diamond_graph) 4 [''Metal''] [''Yield''] = [[''Metal'', ''x'', ''Yield'']]"
proof -
  have a: "walk (build_adjacency diamond_graph) [''Metal'', ''y'', ''Yield'']" by code_simp
  have b: "search_pair (build_adjacency diamond_graph) 4 ''Metal'' ''Yield'' [] = [[''Metal'', ''x'', ''Yield'']]"
    by code_simp
  from pooled_paths_one_per_pair[of diamond_graph 4 "[''Metal'']" "[''Yield'']"] a b
  show ?thesis by simp
qed

theorem path_discovery_all_paths_counterexample:
  "candidates source_keywords diamond_graph = [''Metal''] \<and>
   candidates outcome_keywords diamond_graph = [''Yield''] \<and>
   simple_path (build_adjacency diamond_graph) ''Metal'' ''Yield'' [''Metal'', ''y'', ''Yield''] \<and>
   pooled_paths (build_adjacency diamond_graph) 4 [''Metal''] [''Yield''] = [[''Metal'', ''x'', ''Yield'']] \<and>
   path_discovery diamond_graph 4 5 = [[''Metal'', ''x'', ''Yield'']]"
  by code_simp

section \<open>The rule-based Cypher generator: results\<close>

declare rmatch.simps [simp del]

lemma rmatch_groups:
  "m \<in> set (rmatch r s c) \<Longrightarrow> dom c \<union> must_groups r \<subseteq> dom (snd m)"
proof (induction r s c arbitrary: m rule: rmatch.induct)
  case (1 l s c)
  then have "snd m = c" by (simp add: rmatch.simps(1) split: if_splits)
  then show ?case by simp
next
  case (2 P s c)
  then have "snd m = c" by (cases s) (simp_all add: rmatch.simps(2) split: if_splits)
  then show ?case by simp
next
  case (3 a b s c)
  from "3.prems" obtain m' where m': "m' \<in> set (rmatch a s c)" "m \<in> set (rmatch b (fst m') (snd m'))"
    by (auto simp: rmatch.simps(3))
  have 1: "dom c \<union> must_groups a \<subseteq> dom (snd m')" using "3.IH"(1)[OF m'(1)] .
  have 2: "dom (snd m') \<union> must_groups b \<subseteq> dom (snd m)" using "3.IH"(2)[OF m'(1) m'(2)] .
  have "dom c \<union> (must_groups a \<union> must_groups b) \<subseteq> dom (snd m)" using 1 2 by blast
  then show ?case by simp
next
  case (4 a b s c)
  from "4.prems" have "m \<in> set (rmatch a s c) \<or> m \<in> set (rmatch b s c)"
    by (simp add: rmatch.simps(4))
  then show ?case
  proof
    assume "m \<in> set (rmatch a s c)"
    from "4.IH"(1)[OF this] have "dom c \<union> must_groups a \<subseteq> dom (snd m)" .
    then have "dom c \<union> (must_groups a \<inter> must_groups b) \<subseteq> dom (snd m)" by blast
    then show ?thesis by simp
  next
    assume "m \<in> set (rmatch b s c)"
    from "4.IH"(2)[OF this] have "dom c \<union> must_groups b \<subseteq> dom (snd m)" .
    then have "dom c \<union> (must_groups a \<inter> must_groups b) \<subseteq> dom (snd m)" by blast
    then show ?thesis by simp
  qed
next
  case (5 a s c)
  from "5.prems" have "m \<in> set (rmatch a s c) \<or> m = (s, c)"
    by (auto simp: rmatch.simps(5))
  then show ?case
  proof
    assume "m \<in> set (rmatch a s c)"
    from "5.IH"[OF this] have "dom c \<subseteq> dom (snd m)" by blast
    then show ?thesis by simp
  next
    assume "m = (s, c)"
    then show ?thesis by simp
  qed
next
  case (6 a s c)
  from "6.prems" have "m = (s, c) \<or>
      (\<exists>m'\<in>set (filter (\<lambda>m. length (fst m) < length s) (rmatch a s c)).
          m \<in> set (rmatch (Star a) (fst m') (snd m')))"
    by (subst (asm) rmatch.simps(6)) auto
  then show ?case
  proof
    assume "m = (s, c)"
    then show ?thesis by simp
  next
    assume "\<exists>m'\<in>set (filter (\<lambda>m. length (fst m) < length s) (rmatch a s c)).
          m \<in> set (rmatch (Star a) (fst m') (snd m'))"
    then obtain m' where f: "m' \<in> set (filter (\<lambda>m. length (fst m) < length s) (rmatch a s c))"
      and m: "m \<in> set (rmatch (Star a) (fst m') (snd m'))" by blast
    from f have "m' \<in> set (rmatch a s c)" by simp
    from "6.IH"(1)[OF this] have 1: "dom c \<subseteq> dom (snd m')" by blast
    from "6.IH"(2)[OF f m] have 2: "dom (snd m') \<subseteq> dom (snd m)" by blast
    from 1 2 have "dom c \<subseteq> dom (snd m)" by blast
    then show ?thesis by simp
  qed
next
  case (7 n a s c)
  from "7.prems" obtain m' where m': "m' \<in> set (rmatch a s c)"
    "m = (fst m', (snd m')(n \<mapsto> take (length s - length (fst m')) s))"
    by (auto simp: rmatch.simps(7))
  have 1: "dom c \<union> must_groups a \<subseteq> dom (snd m')" using "7.IH"[OF m'(1)] .
  have "dom (snd m) = insert n (dom (snd m'))" using m'(2) by simp
  then have "dom c \<union> insert n (must_groups a) \<subseteq> dom (snd m)" using 1 by blast
  then show ?case by simp
qed

lemma re_search_groups: "re_search r s = Some m \<Longrightarrow> must_groups r \<subseteq> dom m"
proof (induction r s rule: re_search.induct)
  case (1 r)
  show ?case
  proof (cases "rmatch r [] Map.empty")
    case Nil
    then show ?thesis using 1 by simp
  next
    case (Cons y ys)
    then have "y \<in> set (rmatch r [] Map.empty)" and "snd y = m" using "1.prems" by simp_all
    from rmatch_groups[OF this(1)] this(2) show ?thesis by blast
  qed
next
  case (2 r x xs)
  show ?case
  proof (cases "rmatch r (x # xs) Map.empty")
    case Nil
    then show ?thesis using 2 by simp
  next
    case (Cons y ys)
    then have "y \<in> set (rmatch r (x # xs) Map.empty)" and "snd y = m" using "2.prems" by simp_all
    from rmatch_groups[OF this(1)] this(2) show ?thesis by blast
  qed
qed

lemma must_groups_patterns:
  "2 \<in> must_groups pattern_label" "2 \<in> must_groups pattern_property"
  "1 \<in> must_groups pattern_neighbors" "1 \<in> must_groups pattern_path"
  "2 \<in> must_groups pattern_path"
  "1 \<in> must_groups pattern_count" "2 \<in> must_groups pattern_generic"
  by (simp_all add: pattern_label_def pattern_property_def pattern_neighbors_def pattern_path_def
      pattern_count_def pattern_generic_def ws1_def ws0_def word1_def quote_opt_def unquoted1_def)

lemma group_present:
  assumes "re_search r s = Some m" "n \<in> must_groups r"
  shows "\<exists>g. m n = Some g"
  using re_search_groups[OF assms(1)] assms(2) by auto

lemma is_query_templates:
  "is_query (label_scan l)" "is_query (property_number p v)" "is_query (property_string p v)"
  "is_query (neighbors_query n)" "is_query (path_query a b)" "is_query (count_query l)"
  "is_query (generic_number p v)" "is_query empty_input_placeholder" "is_query safe_hint"
  by (simp_all add: is_query_def label_scan_def property_number_def property_string_def
      neighbors_query_def path_query_def count_query_def generic_number_def)

lemma is_query_nonempty: "is_query q \<Longrightarrow> q \<noteq> []"
  by (auto simp: is_query_def empty_input_placeholder_def safe_hint_def)

lemma text_to_cypher_simple_is_query: "\<exists>q. text_to_cypher_simple nl = Inr q \<and> is_query q"
proof (cases "nl = [] \<or> str_strip nl = []")
  case True
  then show ?thesis by (auto simp: text_to_cypher_simple_def is_query_templates)
next
  case False
  define t where "t = str_lower (str_strip nl)"
  note defs = text_to_cypher_simple_def t_def[symmetric] is_query_templates escape_cypher_string_def
  show ?thesis
  proof (cases "re_search pattern_label t")
    case (Some m)
    then show ?thesis using False by (simp add: defs)
  next
    case n1: None
    show ?thesis
    proof (cases "re_search pattern_property t")
      case (Some m)
      from group_present[OF Some must_groups_patterns(2)] obtain v where "m 2 = Some v" by blast
      then show ?thesis using False n1 Some
        by (simp add: defs)
    next
      case n2: None
      show ?thesis
      proof (cases "re_search pattern_neighbors t")
        case (Some m)
        from group_present[OF Some must_groups_patterns(3)] obtain v where "m 1 = Some v" by blast
        then show ?thesis using False n1 n2 Some
          by (simp add: defs)
      next
        case n3: None
        show ?thesis
        proof (cases "re_search pattern_path t")
          case (Some m)
          from group_present[OF Some must_groups_patterns(4)] group_present[OF Some must_groups_patterns(5)]
          obtain a b where "m 1 = Some a" "m 2 = Some b" by blast
          then show ?thesis using False n1 n2 n3 Some
            by (simp add: defs)
        next
          case n4: None
          show ?thesis
          proof (cases "re_search pattern_count t")
            case (Some m)
            then show ?thesis using False n1 n2 n3 n4
              by (simp add: defs)
          next
            case n5: None
            show ?thesis
            proof (cases "re_search pattern_generic t")
              case (Some m)
              from group_present[OF Some must_groups_patterns(7)] obtain v where "m 2 = Some v" by blast
              then show ?thesis using False n1 n2 n3 n4 n5 Some
                by (simp add: defs)
            next
              case None
              then show ?thesis using False n1 n2 n3 n4 n5
                by (simp add: defs)
            qed
          qed
        qed
      qed
    qed
  qed
qed

section \<open>The rule-based Cypher generator: write clauses\<close>

text \<open>
  The captured groups of a match are pieces of the searched text, the escaping adds
  only backslashes, and the fixed pieces of the templates contain no write clause and
  are separated from the copied words by characters that are not letters. So a write
  clause in the result is a write clause in the input.
\<close>

lemma str_contains_sublist: "str_contains v s \<longleftrightarrow> sublist v s"
  by (induction s) (simp_all add: sublist_Cons_right)

lemma sublist_trans: "sublist a b \<Longrightarrow> sublist b c \<Longrightarrow> sublist a c"
  by (rule sublist_order.order.trans)

lemma suffix_trans: "suffix a b \<Longrightarrow> suffix b c \<Longrightarrow> suffix a c"
  by (auto simp: suffix_def)

lemma sublist_join:
  assumes "\<not> sublist v a" "\<not> sublist v b"
    and "a = [] \<or> b = [] \<or> last a \<notin> set v \<or> hd b \<notin> set v"
  shows "\<not> sublist v (a @ b)"
proof
  assume "sublist v (a @ b)"
  then obtain v1 v2 where v: "v = v1 @ v2" "suffix v1 a" "prefix v2 b"
    using assms(1,2) by (auto simp: sublist_append)
  have "v1 \<noteq> []" using v assms(2) by auto
  have "v2 \<noteq> []" using v assms(1) by auto
  have a: "a \<noteq> []" using \<open>v1 \<noteq> []\<close> v(2) by auto
  have b: "b \<noteq> []" using \<open>v2 \<noteq> []\<close> v(3) by auto
  have "last a = last v1" using v(2) \<open>v1 \<noteq> []\<close> by (auto simp: suffix_def)
  then have la: "last a \<in> set v" using v(1) \<open>v1 \<noteq> []\<close> by auto
  have "hd b = hd v2" using v(3) \<open>v2 \<noteq> []\<close> by (auto simp: prefix_def)
  then have hb: "hd b \<in> set v" using v(1) \<open>v2 \<noteq> []\<close> by auto
  from a b la hb assms(3) show False by blast
qed

lemma rmatch_captures:
  "m \<in> set (rmatch r s c) \<Longrightarrow>
     suffix (fst m) s \<and> (\<forall>n x. snd m n = Some x \<longrightarrow> c n = Some x \<or> sublist x s)"
proof (induction r s c arbitrary: m rule: rmatch.induct)
  case (1 l s c)
  then have "m = (drop (length l) s, c)" by (simp add: rmatch.simps(1) split: if_splits)
  then show ?case by (simp add: suffix_drop)
next
  case (2 P s c)
  then obtain x xs where "s = x # xs" "m = (xs, c)"
    by (cases s) (simp_all add: rmatch.simps(2) split: if_splits)
  then show ?case by (simp add: suffix_ConsI)
next
  case (3 a b s c)
  from "3.prems" obtain m' where m': "m' \<in> set (rmatch a s c)" "m \<in> set (rmatch b (fst m') (snd m'))"
    by (auto simp: rmatch.simps(3))
  have 1: "suffix (fst m') s" "\<forall>n x. snd m' n = Some x \<longrightarrow> c n = Some x \<or> sublist x s"
    using "3.IH"(1)[OF m'(1)] by simp_all
  have 2: "suffix (fst m) (fst m')"
    "\<forall>n x. snd m n = Some x \<longrightarrow> snd m' n = Some x \<or> sublist x (fst m')"
    using "3.IH"(2)[OF m'(1) m'(2)] by simp_all
  have "suffix (fst m) s" using 2(1) 1(1) by (rule suffix_trans)
  moreover have "c n = Some x \<or> sublist x s" if "snd m n = Some x" for n x
  proof -
    from 2(2) that have "snd m' n = Some x \<or> sublist x (fst m')" by blast
    then show ?thesis
    proof
      assume "snd m' n = Some x"
      then show ?thesis using 1(2) by blast
    next
      assume "sublist x (fst m')"
      moreover have "sublist (fst m') s" using 1(1) by (rule suffix_imp_sublist)
      ultimately have "sublist x s" by (rule sublist_trans)
      then show ?thesis by simp
    qed
  qed
  ultimately show ?case by blast
next
  case (4 a b s c)
  from "4.prems" have "m \<in> set (rmatch a s c) \<or> m \<in> set (rmatch b s c)"
    by (simp add: rmatch.simps(4))
  then show ?case using "4.IH" by blast
next
  case (5 a s c)
  from "5.prems" have "m \<in> set (rmatch a s c) \<or> m = (s, c)"
    by (auto simp: rmatch.simps(5))
  then show ?case
  proof
    assume "m \<in> set (rmatch a s c)"
    then show ?thesis using "5.IH" by blast
  next
    assume "m = (s, c)"
    then show ?thesis by simp
  qed
next
  case (6 a s c)
  from "6.prems" have "m = (s, c) \<or>
      (\<exists>m'\<in>set (filter (\<lambda>m. length (fst m) < length s) (rmatch a s c)).
          m \<in> set (rmatch (Star a) (fst m') (snd m')))"
    by (subst (asm) rmatch.simps(6)) auto
  then show ?case
  proof
    assume "m = (s, c)"
    then show ?thesis by simp
  next
    assume "\<exists>m'\<in>set (filter (\<lambda>m. length (fst m) < length s) (rmatch a s c)).
          m \<in> set (rmatch (Star a) (fst m') (snd m'))"
    then obtain m' where f: "m' \<in> set (filter (\<lambda>m. length (fst m) < length s) (rmatch a s c))"
      and m: "m \<in> set (rmatch (Star a) (fst m') (snd m'))" by blast
    from f have ma: "m' \<in> set (rmatch a s c)" by simp
    have 1: "suffix (fst m') s" "\<forall>n x. snd m' n = Some x \<longrightarrow> c n = Some x \<or> sublist x s"
      using "6.IH"(1)[OF ma] by simp_all
    have 2: "suffix (fst m) (fst m')"
      "\<forall>n x. snd m n = Some x \<longrightarrow> snd m' n = Some x \<or> sublist x (fst m')"
      using "6.IH"(2)[OF f m] by simp_all
    have "suffix (fst m) s" using 2(1) 1(1) by (rule suffix_trans)
    moreover have "c n = Some x \<or> sublist x s" if "snd m n = Some x" for n x
    proof -
      from 2(2) that have "snd m' n = Some x \<or> sublist x (fst m')" by blast
      then show ?thesis
      proof
        assume "snd m' n = Some x"
        then show ?thesis using 1(2) by blast
      next
        assume "sublist x (fst m')"
        moreover have "sublist (fst m') s" using 1(1) by (rule suffix_imp_sublist)
        ultimately have "sublist x s" by (rule sublist_trans)
        then show ?thesis by simp
      qed
    qed
    ultimately show ?thesis by blast
  qed
next
  case (7 n a s c)
  from "7.prems" obtain m' where m': "m' \<in> set (rmatch a s c)"
    "m = (fst m', (snd m')(n \<mapsto> take (length s - length (fst m')) s))"
    by (auto simp: rmatch.simps(7))
  have 1: "suffix (fst m') s" "\<forall>k x. snd m' k = Some x \<longrightarrow> c k = Some x \<or> sublist x s"
    using "7.IH"[OF m'(1)] by simp_all
  have "c k = Some x \<or> sublist x s" if "snd m k = Some x" for k x
  proof (cases "k = n")
    case True
    then have "x = take (length s - length (fst m')) s" using that m'(2) by simp
    then show ?thesis by simp
  next
    case False
    then have "snd m' k = Some x" using that m'(2) by simp
    then show ?thesis using 1(2) by blast
  qed
  then show ?case using 1(1) m'(2) by simp
qed

lemma re_search_captures: "re_search r s = Some m \<Longrightarrow> m n = Some x \<Longrightarrow> sublist x s"
proof (induction r s rule: re_search.induct)
  case (1 r)
  show ?case
  proof (cases "rmatch r [] Map.empty")
    case Nil
    then show ?thesis using 1 by simp
  next
    case (Cons y ys)
    then have "y \<in> set (rmatch r [] Map.empty)" and "snd y = m" using "1.prems" by simp_all
    from rmatch_captures[OF this(1)] this(2) "1.prems"(2) show ?thesis by auto
  qed
next
  case (2 r c cs)
  show ?case
  proof (cases "rmatch r (c # cs) Map.empty")
    case Nil
    then have "sublist x cs" using 2 by simp
    then show ?thesis by (simp add: sublist_Cons_right)
  next
    case (Cons y ys)
    then have "y \<in> set (rmatch r (c # cs) Map.empty)" and "snd y = m" using "2.prems" by simp_all
    from rmatch_captures[OF this(1)] this(2) "2.prems"(2) show ?thesis by auto
  qed
qed

lemma of_char_lower_char:
  "(of_char (lower_char c) :: nat) =
     (let n = of_char c in
      if (65 \<le> n \<and> n \<le> 90) \<or> (192 \<le> n \<and> n \<le> 222 \<and> n \<noteq> 215) then n + 32 else n)"
proof -
  have "(of_char c :: nat) < 256" by (rule of_char_mod_256[where ?'a = nat, THEN ssubst]) simp
  then show ?thesis by (auto simp: lower_char_def Let_def)
qed

lemma lower_char_idem: "lower_char (lower_char c) = lower_char c"
proof -
  have "(of_char (lower_char (lower_char c)) :: nat) = of_char (lower_char c)"
    by (simp add: of_char_lower_char[of "lower_char c"] of_char_lower_char[of c] Let_def)
  then show ?thesis by simp
qed

lemma str_lower_idem: "str_lower (str_lower s) = str_lower s"
  by (simp add: str_lower_def lower_char_idem)

lemma str_lower_append: "str_lower (a @ b) = str_lower a @ str_lower b"
  by (simp add: str_lower_def)

lemma verbs_letters: "v \<in> set mutating_verbs \<Longrightarrow> list_all low_letter v \<and> v \<noteq> []"
  by (auto simp: mutating_verbs_def low_letter_def)

lemma sep_not_in_verb:
  assumes "v \<in> set mutating_verbs" "sep c"
  shows "lower_char c \<notin> set v"
  using verbs_letters[OF assms(1)] assms(2) by (auto simp: sep_def list_all_iff)

lemma join_lower:
  assumes "\<not> sublist v (str_lower a)" "\<not> sublist v (str_lower b)" "v \<in> set mutating_verbs"
    and "a = [] \<or> b = [] \<or> sep (last a) \<or> sep (hd b)"
  shows "\<not> sublist v (str_lower (a @ b))"
proof -
  have "str_lower a = [] \<or> str_lower b = [] \<or> last (str_lower a) \<notin> set v \<or> hd (str_lower b) \<notin> set v"
  proof -
    consider "a = []" | "b = []" | "a \<noteq> []" "sep (last a)" | "b \<noteq> []" "sep (hd b)"
      using assms(4) by blast
    then show ?thesis
    proof cases
      case 1 then show ?thesis by (simp add: str_lower_def)
    next
      case 2 then show ?thesis by (simp add: str_lower_def)
    next
      case 3
      then have "last (str_lower a) = lower_char (last a)" by (simp add: str_lower_def last_map)
      then show ?thesis using sep_not_in_verb[OF assms(3) 3(2)] by simp
    next
      case 4
      then have "hd (str_lower b) = lower_char (hd b)" by (simp add: str_lower_def hd_map)
      then show ?thesis using sep_not_in_verb[OF assms(3) 4(2)] by simp
    qed
  qed
  from sublist_join[OF assms(1,2) this] show ?thesis by (simp add: str_lower_append)
qed

lemma no_verbD: "no_verb p \<Longrightarrow> v \<in> set mutating_verbs \<Longrightarrow> \<not> sublist v (str_lower p)"
  by (simp add: no_verb_def list_all_iff)

text \<open>
  Joining a text to a fixed piece of a template: the piece before the text, the piece
  after it, and the piece between two texts.
\<close>


lemma clean_after_fixed:
  assumes "ends_ok p" "v \<in> set mutating_verbs" "\<not> sublist v (str_lower b)"
  shows "\<not> sublist v (str_lower (p @ b))"
  using join_lower[OF no_verbD[of p v] assms(3,2)] assms(1,2) by (simp add: ends_ok_def)

lemma clean_before_fixed:
  assumes "starts_ok p" "v \<in> set mutating_verbs" "\<not> sublist v (str_lower a)"
  shows "\<not> sublist v (str_lower (a @ p))"
  using join_lower[OF assms(3) no_verbD[of p v] assms(2)] assms(1,2) by (simp add: starts_ok_def)

lemma clean_before_fixed_more:
  assumes "starts_ok p" "v \<in> set mutating_verbs" "\<not> sublist v (str_lower a)"
    "\<not> sublist v (str_lower (p @ b))"
  shows "\<not> sublist v (str_lower (a @ p @ b))"
proof -
  have "p @ b \<noteq> []" "sep (hd (p @ b))" using assms(1) by (simp_all add: starts_ok_def)
  then show ?thesis using join_lower[OF assms(3,4,2)] by blast
qed

lemma lower_char_sq: "lower_char c = sq \<longleftrightarrow> c = sq"
proof
  assume "lower_char c = sq"
  then have "(of_char (lower_char c) :: nat) = 39" by (simp add: sq_def)
  then have "(of_char c :: nat) = 39"
    by (simp add: of_char_lower_char Let_def split: if_splits)
  then have "(of_char c :: nat) = of_char sq" by (simp add: sq_def)
  then show "c = sq" by (simp only: of_char_eq_iff)
next
  assume "c = sq"
  then show "lower_char c = sq" by (simp add: lower_char_def sq_def)
qed

lemma lower_char_bslash: "lower_char bslash = bslash"
  by (simp add: lower_char_def bslash_def)

lemma str_lower_escape_text: "str_lower (escape_text s) = escape_text (str_lower s)"
  by (induction s) (auto simp: escape_text_def str_lower_def lower_char_sq lower_char_bslash)

lemma prefix_escape_text:
  "sq \<notin> set v \<Longrightarrow> bslash \<notin> set v \<Longrightarrow> prefix v (escape_text s) \<Longrightarrow> prefix v s"
proof (induction s arbitrary: v)
  case Nil
  then show ?case by (simp add: escape_text_def)
next
  case (Cons c cs)
  show ?case
  proof (cases v)
    case Nil
    then show ?thesis by simp
  next
    case (Cons x xs)
    show ?thesis
    proof (cases "c = sq")
      case True
      then have "x = bslash" using Cons.prems(3) Cons by (simp add: escape_text_def)
      then show ?thesis using Cons.prems(2) Cons by simp
    next
      case False
      then have "x = c" "prefix xs (escape_text cs)" using Cons.prems(3) Cons by (simp_all add: escape_text_def)
      moreover have "sq \<notin> set xs" "bslash \<notin> set xs" using Cons.prems(1,2) Cons by simp_all
      ultimately show ?thesis using Cons.IH[of xs] Cons by simp
    qed
  qed
qed

lemma sublist_escape_text:
  assumes "sq \<notin> set v" "bslash \<notin> set v" "v \<noteq> []"
  shows "sublist v (escape_text s) \<Longrightarrow> sublist v s"
proof (induction s)
  case Nil
  then show ?case by (simp add: escape_text_def)
next
  case (Cons c cs)
  have e: "escape_text (c # cs) = (if c = sq then [bslash, sq] else [c]) @ escape_text cs" by (simp add: escape_text_def)
  show ?case
  proof (cases "c = sq")
    case True
    then have "sublist v (bslash # sq # escape_text cs)" using Cons.prems e by simp
    then have "prefix v (bslash # sq # escape_text cs) \<or> prefix v (sq # escape_text cs) \<or> sublist v (escape_text cs)"
      by (simp add: sublist_Cons_right)
    moreover have "\<not> prefix v (bslash # sq # escape_text cs)" using assms by (cases v) auto
    moreover have "\<not> prefix v (sq # escape_text cs)" using assms by (cases v) auto
    ultimately have "sublist v cs" using Cons.IH by blast
    then show ?thesis by (simp add: sublist_Cons_right)
  next
    case False
    then have "escape_text (c # cs) = c # escape_text cs" using e by simp
    then have "prefix v (escape_text (c # cs)) \<or> sublist v (escape_text cs)"
      using Cons.prems by (simp add: sublist_Cons_right)
    then show ?thesis
    proof
      assume "prefix v (escape_text (c # cs))"
      with assms(1,2) have "prefix v (c # cs)" by (rule prefix_escape_text)
      then show ?thesis by (rule prefix_imp_sublist)
    next
      assume "sublist v (escape_text cs)"
      then have "sublist v cs" by (rule Cons.IH)
      then show ?thesis by (simp add: sublist_Cons_right)
    qed
  qed
qed

lemma verbs_no_quote: "v \<in> set mutating_verbs \<Longrightarrow> sq \<notin> set v \<and> bslash \<notin> set v"
  by (auto simp: mutating_verbs_def sq_def bslash_def)

lemma clean_around_fixed:
  assumes "mid_ok p" "v \<in> set mutating_verbs" "\<not> sublist v (str_lower a)"
    "\<not> sublist v (str_lower b)"
  shows "\<not> sublist v (str_lower (a @ p @ b))"
proof -
  from assms(1) have s: "starts_ok p" and e: "ends_ok p" by (simp_all add: mid_ok_def)
  show ?thesis by (rule clean_before_fixed_more[OF s assms(2,3) clean_after_fixed[OF e assms(2,4)]])
qed

lemma lowered_clean:
  "\<not> sublist v (str_lower a) \<Longrightarrow> \<not> sublist v (str_lower (str_lower a))"
  by (simp add: str_lower_idem)

lemma label_scan_clean:
  assumes v: "v \<in> set mutating_verbs" and l: "\<not> sublist v (str_lower l)"
  shows "\<not> sublist v (str_lower (label_scan l))"
proof -
  have e: "label_scan l = (''MATCH (n:'' @ [btick]) @ l @ ([btick] @ '') RETURN n LIMIT 200'')"
    by (simp add: label_scan_def)
  have 1: "ends_ok (''MATCH (n:'' @ [btick])" by code_simp
  have 2: "starts_ok ([btick] @ '') RETURN n LIMIT 200'')" by code_simp
  show ?thesis unfolding e by (rule clean_after_fixed[OF 1 v clean_before_fixed[OF 2 v l]])
qed

lemma count_query_clean:
  assumes v: "v \<in> set mutating_verbs" and l: "\<not> sublist v (str_lower l)"
  shows "\<not> sublist v (str_lower (count_query l))"
proof -
  have e: "count_query l = (''MATCH (n:'' @ [btick]) @ l @ ([btick] @ '') RETURN count(n) as count'')"
    by (simp add: count_query_def)
  have 1: "ends_ok (''MATCH (n:'' @ [btick])" by code_simp
  have 2: "starts_ok ([btick] @ '') RETURN count(n) as count'')" by code_simp
  show ?thesis unfolding e by (rule clean_after_fixed[OF 1 v clean_before_fixed[OF 2 v l]])
qed

lemma generic_number_clean:
  assumes v: "v \<in> set mutating_verbs" and p: "\<not> sublist v (str_lower p)"
    and x: "\<not> sublist v (str_lower x)"
  shows "\<not> sublist v (str_lower (generic_number p x))"
proof -
  have e: "generic_number p x = ''MATCH (n) WHERE n.'' @ p @ '' = '' @ x @ '' RETURN n LIMIT 200''"
    by (simp add: generic_number_def)
  have 1: "ends_ok ''MATCH (n) WHERE n.''" by code_simp
  have 2: "mid_ok '' = ''" by code_simp
  have 3: "starts_ok '' RETURN n LIMIT 200''" by code_simp
  show ?thesis unfolding e by (rule clean_after_fixed[OF 1 v clean_around_fixed[OF 2 v p clean_before_fixed[OF 3 v x]]])
qed

lemma property_number_clean:
  assumes v: "v \<in> set mutating_verbs" and p: "\<not> sublist v (str_lower p)"
    and x: "\<not> sublist v (str_lower x)"
  shows "\<not> sublist v (str_lower (property_number p x))"
proof -
  have e: "property_number p x =
      ''MATCH (n) WHERE coalesce(n.'' @ p @ ('', '' @ [sq, sq] @ '') = '') @ x @
      '' OR toString(n.'' @ p @ ('') = '' @ [sq]) @ x @ ([sq] @ '' RETURN n LIMIT 200'')"
    by (simp add: property_number_def)
  have 1: "ends_ok ''MATCH (n) WHERE coalesce(n.''" by code_simp
  have 2: "mid_ok ('', '' @ [sq, sq] @ '') = '')" by code_simp
  have 3: "mid_ok '' OR toString(n.''" by code_simp
  have 4: "mid_ok ('') = '' @ [sq])" by code_simp
  have 5: "starts_ok ([sq] @ '' RETURN n LIMIT 200'')" by code_simp
  show ?thesis unfolding e
    by (rule clean_after_fixed[OF 1 v clean_around_fixed[OF 2 v p clean_around_fixed[OF 3 v x clean_around_fixed[OF 4 v p clean_before_fixed[OF 5 v x]]]]])
qed

lemma property_string_clean:
  assumes v: "v \<in> set mutating_verbs" and p: "\<not> sublist v (str_lower p)"
    and x: "\<not> sublist v (str_lower x)"
  shows "\<not> sublist v (str_lower (property_string p x))"
proof -
  have e: "property_string p x =
      ''MATCH (n) WHERE toLower(coalesce(n.'' @ p @ ('', '' @ [sq, sq] @ '')) = '' @ [sq]) @
      str_lower x @ ([sq] @ '' RETURN n LIMIT 200'')"
    by (simp add: property_string_def)
  have 1: "ends_ok ''MATCH (n) WHERE toLower(coalesce(n.''" by code_simp
  have 2: "mid_ok ('', '' @ [sq, sq] @ '')) = '' @ [sq])" by code_simp
  have 3: "starts_ok ([sq] @ '' RETURN n LIMIT 200'')" by code_simp
  show ?thesis unfolding e
    by (rule clean_after_fixed[OF 1 v clean_around_fixed[OF 2 v p clean_before_fixed[OF 3 v lowered_clean[OF x]]]])
qed

lemma neighbors_query_clean:
  assumes v: "v \<in> set mutating_verbs" and x: "\<not> sublist v (str_lower x)"
  shows "\<not> sublist v (str_lower (neighbors_query x))"
proof -
  have e: "neighbors_query x =
      (''MATCH (n) WHERE toLower(coalesce(n.name,'' @ [sq, sq] @ '')) = '' @ [sq]) @ str_lower x @
      ([sq] @ '' OR toLower(coalesce(n.id,'' @ [sq, sq] @ '')) = '' @ [sq]) @ str_lower x @
      ([sq] @ '' '' @ ''MATCH (n)-[r]-(m) RETURN n, r, m LIMIT 300'')"
    by (simp add: neighbors_query_def)
  have 1: "ends_ok (''MATCH (n) WHERE toLower(coalesce(n.name,'' @ [sq, sq] @ '')) = '' @ [sq])"
    by code_simp
  have 2: "mid_ok ([sq] @ '' OR toLower(coalesce(n.id,'' @ [sq, sq] @ '')) = '' @ [sq])"
    by code_simp
  have 3: "starts_ok ([sq] @ '' '' @ ''MATCH (n)-[r]-(m) RETURN n, r, m LIMIT 300'')"
    by code_simp
  note lx = lowered_clean[OF x]
  show ?thesis unfolding e by (rule clean_after_fixed[OF 1 v clean_around_fixed[OF 2 v lx clean_before_fixed[OF 3 v lx]]])
qed

lemma path_query_clean:
  assumes v: "v \<in> set mutating_verbs" and a: "\<not> sublist v (str_lower a)"
    and b: "\<not> sublist v (str_lower b)"
  shows "\<not> sublist v (str_lower (path_query a b))"
proof -
  have e: "path_query a b =
      (''MATCH (a), (b) WHERE (toLower(coalesce(a.name,'' @ [sq, sq] @ '')) = '' @ [sq]) @
      str_lower a @
      ([sq] @ '' OR toLower(coalesce(a.id,'' @ [sq, sq] @ '')) = '' @ [sq]) @ str_lower a @
      ([sq] @ '') '' @ ''AND (toLower(coalesce(b.name,'' @ [sq, sq] @ '')) = '' @ [sq]) @
      str_lower b @
      ([sq] @ '' OR toLower(coalesce(b.id,'' @ [sq, sq] @ '')) = '' @ [sq]) @ str_lower b @
      ([sq] @ '') '' @ ''MATCH p = shortestPath((a)-[*..6]-(b)) RETURN p LIMIT 1'')"
    by (simp add: path_query_def)
  have 1: "ends_ok (''MATCH (a), (b) WHERE (toLower(coalesce(a.name,'' @ [sq, sq] @ '')) = '' @ [sq])"
    by code_simp
  have 2: "mid_ok ([sq] @ '' OR toLower(coalesce(a.id,'' @ [sq, sq] @ '')) = '' @ [sq])"
    by code_simp
  have 3: "mid_ok ([sq] @ '') '' @ ''AND (toLower(coalesce(b.name,'' @ [sq, sq] @ '')) = '' @ [sq])"
    by code_simp
  have 4: "mid_ok ([sq] @ '' OR toLower(coalesce(b.id,'' @ [sq, sq] @ '')) = '' @ [sq])"
    by code_simp
  have 5: "starts_ok ([sq] @ '') '' @ ''MATCH p = shortestPath((a)-[*..6]-(b)) RETURN p LIMIT 1'')"
    by code_simp
  note la = lowered_clean[OF a] and lb = lowered_clean[OF b]
  show ?thesis unfolding e
    by (rule clean_after_fixed[OF 1 v clean_around_fixed[OF 2 v la clean_around_fixed[OF 3 v la clean_around_fixed[OF 4 v lb clean_before_fixed[OF 5 v lb]]]]])
qed

lemma fixed_texts_clean:
  "no_verb empty_input_placeholder" "no_verb safe_hint" "no_verb ''None''"
  by code_simp+

lemma sublist_map: "sublist a b \<Longrightarrow> sublist (map f a) (map f b)"
  by (auto simp: sublist_def) (metis map_append)

lemma sublist_str_strip: "sublist (str_strip s) s"
proof -
  have 1: "suffix (dropWhile py_isspace s) s" by (rule suffix_dropWhile)
  have "suffix (dropWhile py_isspace (rev (dropWhile py_isspace s))) (rev (dropWhile py_isspace s))"
    by (rule suffix_dropWhile)
  then have "prefix (str_strip s) (dropWhile py_isspace s)"
    unfolding str_strip_def by (simp add: suffix_to_prefix)
  then have "sublist (str_strip s) (dropWhile py_isspace s)" by (rule prefix_imp_sublist)
  moreover have "sublist (dropWhile py_isspace s) s" using 1 by (rule suffix_imp_sublist)
  ultimately show ?thesis by (rule sublist_trans)
qed

lemma contains_mutating_verb_iff:
  "contains_mutating_verb q \<longleftrightarrow> (\<exists>v\<in>set mutating_verbs. sublist v (str_lower q))"
  by (simp add: contains_mutating_verb_def list_ex_iff str_contains_sublist)

lemma capture_clean:
  assumes s: "re_search r t = Some m" and t: "str_lower t = t"
    and c: "\<not> sublist v t" and v: "v \<in> set mutating_verbs"
  shows "\<not> sublist v (str_lower (fmt (m n)))"
proof (cases "m n")
  case None
  then show ?thesis using no_verbD[OF fixed_texts_clean(3) v] by (simp add: fmt_def)
next
  case (Some x)
  from re_search_captures[OF s Some] have "sublist (str_lower x) (str_lower t)"
    unfolding str_lower_def by (rule sublist_map)
  then have "sublist (str_lower x) t" using t by simp
  then have "\<not> sublist v (str_lower x)" using c sublist_trans by blast
  then show ?thesis using Some by (simp add: fmt_def)
qed

lemma escaped_capture_clean:
  assumes s: "re_search r t = Some m" and t: "str_lower t = t"
    and c: "\<not> sublist v t" and v: "v \<in> set mutating_verbs"
    and e: "escape_cypher_string (m n) = Some x"
  shows "\<not> sublist v (str_lower x)"
proof -
  from e obtain y where y: "m n = Some y" and x: "x = escape_text y"
    by (auto simp: escape_cypher_string_def escape_text_def)
  from capture_clean[OF s t c v, of n] y have 1: "\<not> sublist v (str_lower y)" by (simp add: fmt_def)
  from verbs_no_quote[OF v] verbs_letters[OF v]
  have "sq \<notin> set v" "bslash \<notin> set v" "v \<noteq> []" by simp_all
  from sublist_escape_text[OF this] 1 have "\<not> sublist v (escape_text (str_lower y))" by blast
  then show ?thesis by (simp add: x str_lower_escape_text)
qed

lemma text_to_cypher_simple_clean:
  assumes c: "\<not> sublist v (str_lower nl)" and v: "v \<in> set mutating_verbs"
    and q: "text_to_cypher_simple nl = Inr q"
  shows "\<not> sublist v (str_lower q)"
proof (cases "nl = [] \<or> str_strip nl = []")
  case True
  then have "q = empty_input_placeholder" using q by (auto simp: text_to_cypher_simple_def)
  then show ?thesis using no_verbD[OF fixed_texts_clean(1) v] by simp
next
  case False
  define t where "t = str_lower (str_strip nl)"
  have tl: "str_lower t = t" by (simp add: t_def str_lower_idem)
  have "sublist t (str_lower nl)"
    unfolding t_def str_lower_def by (rule sublist_map[OF sublist_str_strip])
  then have tc: "\<not> sublist v t" using c sublist_trans by blast
  note defs = text_to_cypher_simple_def t_def[symmetric]
  show ?thesis
  proof (cases "re_search pattern_label t")
    case (Some m)
    then have "q = label_scan (fmt (m 2))" using False q by (simp add: defs)
    then show ?thesis using label_scan_clean[OF v capture_clean[OF Some tl tc v]] by simp
  next
    case n1: None
    show ?thesis
    proof (cases "re_search pattern_property t")
      case (Some m)
      from group_present[OF Some must_groups_patterns(2)] obtain y where y: "m 2 = Some y" by blast
      then obtain x where x: "escape_cypher_string (m 2) = Some x"
        by (simp add: escape_cypher_string_def)
      then have "q = property_number (fmt (m 1)) x \<or> q = property_string (fmt (m 1)) x"
        using False q n1 Some by (simp add: defs split: if_splits)
      then show ?thesis
        using property_number_clean[OF v capture_clean[OF Some tl tc v] escaped_capture_clean[OF Some tl tc v x]]
          property_string_clean[OF v capture_clean[OF Some tl tc v] escaped_capture_clean[OF Some tl tc v x]]
        by blast
    next
      case n2: None
      show ?thesis
      proof (cases "re_search pattern_neighbors t")
        case (Some m)
        from group_present[OF Some must_groups_patterns(3)] obtain y where y: "m 1 = Some y" by blast
        then obtain x where x: "escape_cypher_string (m 1) = Some x"
          by (simp add: escape_cypher_string_def)
        then have "q = neighbors_query x" using False q n1 n2 Some by (simp add: defs)
        then show ?thesis
          using neighbors_query_clean[OF v escaped_capture_clean[OF Some tl tc v x]] by simp
      next
        case n3: None
        show ?thesis
        proof (cases "re_search pattern_path t")
          case (Some m)
          from group_present[OF Some must_groups_patterns(4)] group_present[OF Some must_groups_patterns(5)]
          obtain y z where "m 1 = Some y" "m 2 = Some z" by blast
          then obtain a b where a: "escape_cypher_string (m 1) = Some a"
            and b: "escape_cypher_string (m 2) = Some b"
            by (simp add: escape_cypher_string_def)
          then have "q = path_query a b" using False q n1 n2 n3 Some by (simp add: defs)
          then show ?thesis
            using path_query_clean[OF v escaped_capture_clean[OF Some tl tc v a]
                escaped_capture_clean[OF Some tl tc v b]] by simp
        next
          case n4: None
          show ?thesis
          proof (cases "re_search pattern_count t")
            case (Some m)
            then have "q = count_query (fmt (m 1))" using False q n1 n2 n3 n4 by (simp add: defs)
            then show ?thesis using count_query_clean[OF v capture_clean[OF Some tl tc v]] by simp
          next
            case n5: None
            show ?thesis
            proof (cases "re_search pattern_generic t")
              case (Some m)
              from group_present[OF Some must_groups_patterns(7)] obtain y where y: "m 2 = Some y" by blast
              then obtain x where x: "escape_cypher_string (m 2) = Some x"
                by (simp add: escape_cypher_string_def)
              then have "q = generic_number (fmt (m 1)) x \<or> q = property_string (fmt (m 1)) x"
                using False q n1 n2 n3 n4 n5 Some by (simp add: defs split: if_splits)
              then show ?thesis
                using generic_number_clean[OF v capture_clean[OF Some tl tc v] escaped_capture_clean[OF Some tl tc v x]]
                  property_string_clean[OF v capture_clean[OF Some tl tc v] escaped_capture_clean[OF Some tl tc v x]]
                by blast
            next
              case None
              then have "q = safe_hint" using False q n1 n2 n3 n4 n5 by (simp add: defs)
              then show ?thesis using no_verbD[OF fixed_texts_clean(2) v] by simp
            qed
          qed
        qed
      qed
    qed
  qed
qed

lemma text_to_cypher_simple_read_only:
  assumes "\<not> contains_mutating_verb nl" "text_to_cypher_simple nl = Inr q"
  shows "\<not> contains_mutating_verb q"
  using assms text_to_cypher_simple_clean[of _ nl q]
  unfolding contains_mutating_verb_iff by blast

text \<open>
  C9 (as amended). For every input string the generator returns, without raising, a
  non-empty string that starts with a \<open>MATCH\<close> clause or is one of its two comment
  texts (the empty-input placeholder and the usage hint); when none of the words
  \<open>create\<close>, \<open>delete\<close>, \<open>set\<close>, \<open>merge\<close>, \<open>remove\<close>, \<open>drop\<close> occurs in the input
  (in any letter case, also inside a longer word), none occurs in the returned string.
  \<open>find devices\<close> yields the label scan for the label \<open>devices\<close>,
  \<open>count materials\<close> the count-by-label query, and the empty string the non-empty
  placeholder.
\<close>

theorem text_to_cypher_simple_templates:
  "(\<exists>q. text_to_cypher_simple nl = Inr q \<and> q \<noteq> [] \<and> is_query q \<and>
        (\<not> contains_mutating_verb nl \<longrightarrow> \<not> contains_mutating_verb q)) \<and>
   text_to_cypher_simple ''find devices'' = Inr (label_scan ''devices'') \<and>
   text_to_cypher_simple ''count materials'' = Inr (count_query ''materials'') \<and>
   text_to_cypher_simple [] = Inr empty_input_placeholder \<and>
   empty_input_placeholder \<noteq> []"
proof (intro conjI)
  from text_to_cypher_simple_is_query[of nl] obtain q
    where q: "text_to_cypher_simple nl = Inr q" "is_query q" by blast
  have "q \<noteq> []" using q(2) by (rule is_query_nonempty)
  moreover have "\<not> contains_mutating_verb nl \<longrightarrow> \<not> contains_mutating_verb q"
    using text_to_cypher_simple_read_only[OF _ q(1)] by blast
  ultimately show "\<exists>q. text_to_cypher_simple nl = Inr q \<and> q \<noteq> [] \<and> is_query q \<and>
        (\<not> contains_mutating_verb nl \<longrightarrow> \<not> contains_mutating_verb q)"
    using q by blast
  show "text_to_cypher_simple ''find devices'' = Inr (label_scan ''devices'')"
    by code_simp
  show "text_to_cypher_simple ''count materials'' = Inr (count_query ''materials'')"
    by code_simp
  show "text_to_cypher_simple [] = Inr empty_input_placeholder"
    by (simp add: text_to_cypher_simple_def)
  show "empty_input_placeholder \<noteq> []"
    by (simp add: empty_input_placeholder_def)
qed

theorem text_to_cypher_simple_templates_witness:
  "\<not> contains_mutating_verb ''find devices'' \<and>
   text_to_cypher_simple ''find devices'' = Inr (label_scan ''devices'') \<and>
   label_scan ''devices'' \<noteq> [] \<and> is_query (label_scan ''devices'') \<and>
   \<not> contains_mutating_verb (label_scan ''devices'')"
proof -
  have h: "\<not> contains_mutating_verb ''find devices''" by code_simp
  from text_to_cypher_simple_templates[of "''find devices''"] obtain q
    where q: "text_to_cypher_simple ''find devices'' = Inr q" "q \<noteq> []" "is_query q"
      "\<not> contains_mutating_verb ''find devices'' \<longrightarrow> \<not> contains_mutating_verb q"
    and e: "text_to_cypher_simple ''find devices'' = Inr (label_scan ''devices'')"
    by blast
  from q(1) e have "q = label_scan ''devices''" by simp
  with h q e show ?thesis by blast
qed

text \<open>
  As C9 was stated. A backslash at the end of a copied name escapes the closing quote
  of its literal, and a write clause in the input is copied into the query.
\<close>

theorem text_to_cypher_simple_counterexample:
  "text_to_cypher_simple (''neighbors a'' @ [bslash]) = Inr (neighbors_query (''a'' @ [bslash])) \<and>
   \<not> literals_closed (neighbors_query (''a'' @ [bslash])) \<and>
   text_to_cypher_simple ''find delete'' = Inr (label_scan ''delete'') \<and>
   contains_mutating_verb (label_scan ''delete'')"
  by code_simp

section \<open>The retrieval orchestrator: results\<close>

lemma doc_citation_ids:
  "map cit_id (map doc_citation (enumerate n ds)) = map doc_ref_id [n..<n + length ds]"
proof (induction ds arbitrary: n)
  case Nil
  then show ?case by simp
next
  case (Cons d ds)
  have "[n..<n + length (d # ds)] = n # [Suc n..<n + length (d # ds)]"
    by (rule upt_conv_Cons) simp
  moreover have "n + length (d # ds) = Suc n + length ds" by simp
  ultimately have "[n..<n + length (d # ds)] = n # [Suc n..<Suc n + length ds]"
    by (simp only:)
  moreover have "map cit_id (map doc_citation (enumerate n (d # ds))) =
      doc_ref_id n # map cit_id (map doc_citation (enumerate (Suc n) ds))"
    by (simp add: doc_citation_def)
  ultimately show ?case using Cons.IH[of "Suc n"] by (simp only: list.map)
qed

lemma task_vector_ids:
  assumes "task_vector w query = Inr v"
  shows "map cit_id (snd v) = map doc_ref_id [0..<length (snd v)]"
proof -
  obtain raw_docs where r: "vector_search w query = Inr raw_docs"
    using assms by (cases "vector_search w query") (simp_all add: task_vector_def)
  show ?thesis
  proof (cases "raw_docs = []")
    case True
    then show ?thesis using assms r by (auto simp: task_vector_def)
  next
    case False
    then have "snd v = map doc_citation (enumerate 0 raw_docs)"
      using assms r by (auto simp: task_vector_def)
    then show ?thesis using doc_citation_ids[of 0 raw_docs] by simp
  qed
qed

lemma task_graph_ids:
  assumes "task_graph w query = Inr g"
  shows "map cit_id (snd g) = [] \<or> map cit_id (snd g) = [''Graph-1'']"
  using assms
  by (auto simp: task_graph_def graph_citation_def Let_def split: sum.splits py_exc.splits if_splits)

lemma task_web_ids:
  assumes "task_web w query = Inr wb"
  shows "map cit_id (snd wb) = [] \<or> map cit_id (snd wb) = [''Web-1'']"
  using assms
  by (auto simp: task_web_def web_citation_def split: sum.splits if_splits)





lemma collect_three:
  "collect [a, b, c] [] = Inr cs \<Longrightarrow>
     \<exists>x y z. a = Inr x \<and> b = Inr y \<and> c = Inr z \<and> cs = snd x @ snd y @ snd z"
  by (cases a; cases b; cases c) auto

text \<open>
  C1 (as amended). Whenever the request returns, the citations list holds the vector
  citations first, with the ids \<open>Doc-1\<close> to \<open>Doc-n\<close> in hit order, and then the
  citations of the graph task and of the web task in the order in which the two
  tasks end: \<open>Graph-1\<close> before \<open>Web-1\<close> unless the graph task is suspended at the
  model-based translation and the web task ends first.
\<close>

theorem citations_in_completion_order:
  assumes "get_combined_response w query = Inr r"
  shows "\<exists>v g wb. task_vector w query = Inr v \<and> task_graph w query = Inr g \<and>
           task_web w query = Inr wb \<and>
           citations r =
             (if web_ends_before_graph w query then snd v @ snd wb @ snd g
              else snd v @ snd g @ snd wb) \<and>
           map cit_id (snd v) = map doc_ref_id [0..<length (snd v)] \<and>
           (map cit_id (snd g) = [] \<or> map cit_id (snd g) = [''Graph-1'']) \<and>
           (map cit_id (snd wb) = [] \<or> map cit_id (snd wb) = [''Web-1''])"
proof -
  let ?ended = "if web_ends_before_graph w query
                then [task_vector w query, task_web w query, task_graph w query]
                else [task_vector w query, task_graph w query, task_web w query]"
  from assms obtain cs where cs: "collect ?ended [] = Inr cs" "citations r = cs"
    by (auto simp: get_combined_response_def Let_def split: sum.splits if_splits)
  show ?thesis
  proof (cases "web_ends_before_graph w query")
    case True
    with cs(1) have "collect [task_vector w query, task_web w query, task_graph w query] [] = Inr cs"
      by simp
    from collect_three[OF this] obtain v wb g where
      "task_vector w query = Inr v" "task_web w query = Inr wb" "task_graph w query = Inr g"
      "cs = snd v @ snd wb @ snd g" by blast
    then show ?thesis
      using True cs(2) task_vector_ids[of w query v] task_graph_ids[of w query g]
        task_web_ids[of w query wb] by auto
  next
    case False
    with cs(1) have "collect [task_vector w query, task_graph w query, task_web w query] [] = Inr cs"
      by simp
    from collect_three[OF this] obtain v g wb where
      "task_vector w query = Inr v" "task_graph w query = Inr g" "task_web w query = Inr wb"
      "cs = snd v @ snd g @ snd wb" by blast
    then show ?thesis
      using False cs(2) task_vector_ids[of w query v] task_graph_ids[of w query g]
        task_web_ids[of w query wb] by auto
  qed
qed

lemma example_ids:
  "map_sum id (\<lambda>r. map cit_id (citations r)) (get_combined_response example_world ''filters'')
     = Inr [''Doc-1'', ''Doc-2'', ''Graph-1'', ''Web-1'']"
  by code_simp

theorem citations_in_completion_order_witness:
  "map_sum id (\<lambda>r. map cit_id (citations r)) (get_combined_response example_world ''filters'')
     = Inr [''Doc-1'', ''Doc-2'', ''Graph-1'', ''Web-1''] \<and>
   \<not> web_ends_before_graph example_world ''filters'' \<and>
   (\<exists>r v g wb. get_combined_response example_world ''filters'' = Inr r \<and>
      task_vector example_world ''filters'' = Inr v \<and> task_graph example_world ''filters'' = Inr g \<and>
      task_web example_world ''filters'' = Inr wb \<and> citations r = snd v @ snd g @ snd wb)"
proof -
  have n: "\<not> web_ends_before_graph example_world ''filters''"
    by (simp add: web_ends_before_graph_def web_suspends_def example_world_def)
  obtain r where r: "get_combined_response example_world ''filters'' = Inr r"
    using example_ids by (cases "get_combined_response example_world ''filters''") auto
  from citations_in_completion_order[OF r] n r example_ids show ?thesis by auto
qed

theorem citations_order_counterexample:
  "map_sum id (\<lambda>v. length (snd v)) (task_vector web_first_world ''filters'') = Inr 2 \<and>
   map_sum id (\<lambda>g. map cit_id (snd g)) (task_graph web_first_world ''filters'') = Inr [''Graph-1''] \<and>
   map_sum id (\<lambda>wb. map cit_id (snd wb)) (task_web web_first_world ''filters'') = Inr [''Web-1''] \<and>
   map_sum id (\<lambda>r. map cit_id (citations r)) (get_combined_response web_first_world ''filters'')
     = Inr [''Doc-1'', ''Doc-2'', ''Web-1'', ''Graph-1'']"
  by code_simp

lemma run_query_failure:
  assumes "\<not> neo4j_driver w \<or> (\<exists>e. neo4j_read w cypher = Inl (Exc e))"
  shows "\<exists>message. run_query_if_neo4j w cypher = Inr (ErrorDict message)"
  using assms by (auto simp: run_query_if_neo4j_def)

text \<open>
  C5. What the code does when the translated query cannot be executed (no driver, or
  the execution raises an exception): \<open>run_query_if_neo4j\<close> returns the dict
  \<open>{"error": message}\<close>, which \<open>task_graph\<close> takes for data, so the task cites
  \<open>Graph-1\<close> with the error dict as its data and returns the \<open>[Graph-1]\<close> context.
\<close>

theorem task_graph_cites_failed_execution:
  assumes "llm_step w query True = Inr st"
    and "fallback_step query st = Inr (cypher, note)"
    and "\<not> neo4j_driver w \<or> (\<exists>e. neo4j_read w cypher = Inl (Exc e))"
    and "\<forall>message. \<exists>json_str. json_dumps w (ErrorDict message) = Inr json_str"
  shows "\<exists>message json_str.
           run_query_if_neo4j w cypher = Inr (ErrorDict message) \<and>
           json_dumps w (ErrorDict message) = Inr json_str \<and>
           task_graph w query =
             Inr (''[Graph-1] Cypher: '' @ cypher @ [newline] @ ''Results: '' @ json_str,
                  [graph_citation cypher (ErrorDict message)])"
proof -
  from run_query_failure[OF assms(3)] obtain message where
    m: "run_query_if_neo4j w cypher = Inr (ErrorDict message)" by blast
  from assms(4) obtain json_str where j: "json_dumps w (ErrorDict message) = Inr json_str"
    by blast
  have "text_to_cypher_and_run w query (Some (run_query_if_neo4j w)) True =
      Inr \<lparr>resp_cypher = cypher, resp_results = ErrorDict message, resp_note = note\<rparr>"
    by (simp add: text_to_cypher_and_run_def assms(1,2) run_step_def m)
  then have "task_graph w query =
             Inr (''[Graph-1] Cypher: '' @ cypher @ [newline] @ ''Results: '' @ json_str,
                  [graph_citation cypher (ErrorDict message)])"
    by (simp add: task_graph_def j)
  with m j show ?thesis by blast
qed

theorem task_graph_cites_failed_execution_witness:
  "llm_step graph_down_world ''find devices'' True = Inr (Some ''MATCH (n) RETURN n LIMIT 5'', ''generated_via_llm'') \<and>
   fallback_step ''find devices'' (Some ''MATCH (n) RETURN n LIMIT 5'', ''generated_via_llm'')
     = Inr (''MATCH (n) RETURN n LIMIT 5'', ''generated_via_llm'') \<and>
   neo4j_read graph_down_world ''MATCH (n) RETURN n LIMIT 5'' = Inl (Exc ''connection refused'') \<and>
   map_sum id (\<lambda>g. map cit_id (snd g)) (task_graph graph_down_world ''find devices'') = Inr [''Graph-1''] \<and>
   map_sum id (\<lambda>g. map cit_metadata (snd g)) (task_graph graph_down_world ''find devices'')
     = Inr [Some (ErrorDict ''connection refused'')]"
proof -
  have a: "llm_step graph_down_world ''find devices'' True = Inr (Some ''MATCH (n) RETURN n LIMIT 5'', ''generated_via_llm'')"
    by code_simp
  have b: "fallback_step ''find devices'' (Some ''MATCH (n) RETURN n LIMIT 5'', ''generated_via_llm'')
     = Inr (''MATCH (n) RETURN n LIMIT 5'', ''generated_via_llm'')"
    by (simp add: fallback_step_def)
  have c: "neo4j_read graph_down_world ''MATCH (n) RETURN n LIMIT 5'' = Inl (Exc ''connection refused'')"
    by (simp add: graph_down_world_def example_world_def)
  then have c': "\<not> neo4j_driver graph_down_world \<or>
      (\<exists>e. neo4j_read graph_down_world ''MATCH (n) RETURN n LIMIT 5'' = Inl (Exc e))" by blast
  have d: "\<forall>message. \<exists>json_str. json_dumps graph_down_world (ErrorDict message) = Inr json_str"
    by (simp add: graph_down_world_def example_world_def render_def)
  have e: "run_query_if_neo4j graph_down_world ''MATCH (n) RETURN n LIMIT 5'' = Inr (ErrorDict ''connection refused'')"
    by (simp add: run_query_if_neo4j_def graph_down_world_def example_world_def)
  from task_graph_cites_failed_execution[OF a b c' d] e a b c show ?thesis
    by (auto simp: graph_citation_def)
qed

end
